theory Spec2Isabelle
  imports Complex_Main
begin

section \<open>Data model of the tree ensemble\<close>

text \<open>
  The attack reads a tree ensemble from JSON.  A node is a leaf
  (\<^verbatim>\<open>{"nodeid": .., "leaf": ..}\<close>) or a split
  (\<^verbatim>\<open>{"nodeid", "split", "split_condition", "yes", "no", "children"}\<close>).
  The feature reference of a split is a bare integer or a string such as \<^verbatim>\<open>f12\<close>,
  which the code turns into the integer behind the first character.
  Python floats are modelled by the reals (exact arithmetic).
\<close>

datatype feature_ref = IntRef nat | StrRef char nat

fun attribute_of :: "feature_ref \<Rightarrow> nat" where
  "attribute_of (IntRef n) = n"
| "attribute_of (StrRef c n) = n"

datatype tree =
    Leaf nat real
  | Split nat feature_ref real nat nat "tree list"

fun nodeid :: "tree \<Rightarrow> nat" where
  "nodeid (Leaf nid v) = nid"
| "nodeid (Split nid f thr y n cs) = nid"

datatype error =
    MissingChild
  | LeafCountError
  | EmptyPdictList
  | WrongAxisOrdering
  | InfiniteWeight
  | ChildNotFound
  | IndexError
  | TypeError
  | AssertionError
  | AttributeError
  | NotEnoughClasses
  | ValueError
  | NoAdversarialExample

text \<open>
  \<^verbatim>\<open>round(threshold, round_digits)\<close>: rounding to a number of decimal digits, ties to
  the even neighbour, on the exact value.
\<close>

definition round_half_even :: "real \<Rightarrow> int" where
  "round_half_even x =
     (let f = \<lfloor>x\<rfloor>; r = x - of_int f
      in if r < 1 / 2 then f
         else if 1 / 2 < r then f + 1
         else if even f then f else f + 1)"

definition py_round :: "real \<Rightarrow> int \<Rightarrow> real" where
  "py_round x d =
     (if 0 \<le> d then of_int (round_half_even (x * 10 ^ nat d)) / 10 ^ nat d
      else of_int (round_half_even (x / 10 ^ nat (- d))) * 10 ^ nat (- d))"

section \<open>The tree compiler\<close>

text \<open>
  \<^verbatim>\<open>node_wrapper\<close>: one unique split.  \<open>node_pos\<close> lists the (treeid, nodeid) of its
  occurrences, \<open>leaves_lists\<close> the left and right leaf indices of each occurrence; the
  boolean is the \<^verbatim>\<open>"root"\<close> marker that makes the Python tuple a triple.
\<close>

datatype var = P nat | L nat | B

record node_wrapper =
  attribute :: nat
  threshold :: real
  node_pos :: "(nat \<times> nat) list"
  leaves_lists :: "(nat list \<times> nat list \<times> bool) list"
  p_grb_var :: "var option"
  l_grb_var_list :: "(var list \<times> var list \<times> bool) list"

definition add_leaves ::
  "nat \<Rightarrow> nat \<Rightarrow> nat list \<Rightarrow> nat list \<Rightarrow> bool \<Rightarrow> node_wrapper \<Rightarrow> node_wrapper" where
  "add_leaves treeid nid left_leaves right_leaves is_root nw =
     nw\<lparr>node_pos := node_pos nw @ [(treeid, nid)],
        leaves_lists := leaves_lists nw @ [(left_leaves, right_leaves, is_root)]\<rparr>"

definition new_node_wrapper ::
  "nat \<Rightarrow> nat \<Rightarrow> nat \<Rightarrow> real \<Rightarrow> nat list \<Rightarrow> nat list \<Rightarrow> bool \<Rightarrow> node_wrapper" where
  "new_node_wrapper treeid nid attr thr left_leaves right_leaves is_root =
     add_leaves treeid nid left_leaves right_leaves is_root
       \<lparr>attribute = attr, threshold = thr, node_pos = [], leaves_lists = [],
        p_grb_var = None, l_grb_var_list = []\<rparr>"

text \<open>The state that \<^verbatim>\<open>dfs\<close> mutates; \<open>node_check\<close> is the dictionary local to the constructor.\<close>

record cstate =
  c_node_list :: "node_wrapper list"
  c_leaf_v_list :: "real list"
  c_leaf_pos_list :: "(nat \<times> nat) list"
  c_node_check :: "(nat \<times> real) \<rightharpoonup> nat"

definition empty_cstate :: cstate where
  "empty_cstate =
     \<lparr>c_node_list = [], c_leaf_v_list = [], c_leaf_pos_list = [], c_node_check = Map.empty\<rparr>"

text \<open>The loop over \<^verbatim>\<open>tree["children"]\<close>: the last child with the given id wins.\<close>

definition find_child :: "tree list \<Rightarrow> nat \<Rightarrow> tree option" where
  "find_child cs i = fold (\<lambda>c acc. if nodeid c = i then Some c else acc) cs None"

definition record_node ::
  "nat \<Rightarrow> nat \<Rightarrow> nat \<Rightarrow> real \<Rightarrow> nat list \<Rightarrow> nat list \<Rightarrow> bool \<Rightarrow> cstate \<Rightarrow> cstate" where
  "record_node treeid nid attr thr left_leaves right_leaves is_root st =
     (case c_node_check st (attr, thr) of
        None \<Rightarrow>
          st\<lparr>c_node_list := c_node_list st
                 @ [new_node_wrapper treeid nid attr thr left_leaves right_leaves is_root],
             c_node_check := (c_node_check st)((attr, thr) \<mapsto> length (c_node_list st))\<rparr>
      | Some node_index \<Rightarrow>
          st\<lparr>c_node_list := (c_node_list st)
                 [node_index := add_leaves treeid nid left_leaves right_leaves is_root
                                  (c_node_list st ! node_index)]\<rparr>)"

lemma find_child_fold_mem:
  "fold (\<lambda>c acc. if nodeid c = i then Some c else acc) cs a = Some t \<Longrightarrow>
     t \<in> set cs \<or> a = Some t"
  by (induction cs arbitrary: a) (auto split: if_splits)

lemma find_child_mem: "find_child cs i = Some t \<Longrightarrow> t \<in> set cs"
  using find_child_fold_mem [of i cs None t] by (simp add: find_child_def)

lemma find_child_size:
  "find_child cs i = Some t \<Longrightarrow> size t < Suc (size_list size cs)"
  using find_child_mem [of cs i t] size_list_estimation' [of t cs "size t" size]
  by (simp add: less_Suc_eq_le)

function dfs ::
  "int \<Rightarrow> tree \<Rightarrow> nat \<Rightarrow> bool \<Rightarrow> bool \<Rightarrow> cstate \<Rightarrow> error + (nat list \<times> cstate)" where
  "dfs rd (Leaf nid v) treeid is_root neg st =
     Inr ([length (c_leaf_v_list st)],
          st\<lparr>c_leaf_v_list := c_leaf_v_list st @ [if neg then - v else v],
             c_leaf_pos_list := c_leaf_pos_list st @ [(treeid, nid)]\<rparr>)"
| "dfs rd (Split nid f thr y n cs) treeid is_root neg st =
     (case find_child cs y of
        None \<Rightarrow> Inl MissingChild
      | Some left_subtree \<Rightarrow>
          (case find_child cs n of
             None \<Rightarrow> Inl MissingChild
           | Some right_subtree \<Rightarrow>
               (case dfs rd left_subtree treeid False neg st of
                  Inl e \<Rightarrow> Inl e
                | Inr (left_leaves, st1) \<Rightarrow>
                    (case dfs rd right_subtree treeid False neg st1 of
                       Inl e \<Rightarrow> Inl e
                     | Inr (right_leaves, st2) \<Rightarrow>
                         Inr (left_leaves @ right_leaves,
                              record_node treeid nid (attribute_of f) (py_round thr rd)
                                left_leaves right_leaves is_root st2)))))"
  by pat_completeness auto
termination
  by (relation "measure (\<lambda>(rd, t, treeid, is_root, neg, st). size t)")
     (auto dest: find_child_size)

section \<open>The solver model\<close>

text \<open>
  The MILP solver is an external collaborator.  Its model is kept as data: the declared
  variables with their bounds, the named linear constraints in the order they were added,
  and the objective.  A linear expression is a list of (coefficient, variable) terms and
  a constant.  Constraint names are kept structured; the format strings of the source
  (\<^verbatim>\<open>"p_consis_attr{}_{}th"\<close>, \<^verbatim>\<open>"leaf_sum_one_for_tree{}"\<close>, \<^verbatim>\<open>"mislabel"\<close>,
  \<^verbatim>\<open>"linf_constr_attr{}"\<close>, ...) map them to distinct strings.
\<close>

datatype vtype = Binary | Continuous

record var_decl =
  vd_var :: var
  vd_type :: vtype
  vd_lb :: real
  vd_ub :: "real option"

datatype sense = LE | EQ | GE

type_synonym linexpr = "(real \<times> var) list \<times> real"

datatype cname =
    PConsis nat nat
  | LeafSumOne nat
  | RootLeft nat nat
  | RootRight nat nat
  | NodeLeft nat nat
  | NodeRight nat nat
  | Mislabel
  | LinfConstr nat

record constr =
  c_name :: cname
  c_lhs :: linexpr
  c_sense :: sense
  c_rhs :: linexpr

record grb_model =
  m_vars :: "var_decl list"
  m_constrs :: "constr list"
  m_objective :: linexpr

definition LinExpr :: "real list \<Rightarrow> var list \<Rightarrow> linexpr" where
  "LinExpr coeffs vs = (zip coeffs vs, 0)"

definition le_var :: "var \<Rightarrow> linexpr" where
  "le_var v = ([(1, v)], 0)"

definition le_const :: "real \<Rightarrow> linexpr" where
  "le_const c = ([], c)"

definition le_plus_var :: "linexpr \<Rightarrow> var \<Rightarrow> linexpr" where
  "le_plus_var e v = (fst e @ [(1, v)], snd e)"

definition le_minus_var :: "linexpr \<Rightarrow> var \<Rightarrow> linexpr" where
  "le_minus_var e v = (fst e @ [(- 1, v)], snd e)"

definition le_plus_const :: "linexpr \<Rightarrow> real \<Rightarrow> linexpr" where
  "le_plus_const e c = (fst e, snd e + c)"

definition addConstr :: "cname \<Rightarrow> linexpr \<Rightarrow> sense \<Rightarrow> linexpr \<Rightarrow> grb_model \<Rightarrow> grb_model" where
  "addConstr nm lhs s rhs m =
     m\<lparr>m_constrs := m_constrs m
          @ [\<lparr>c_name = nm, c_lhs = lhs, c_sense = s, c_rhs = rhs\<rparr>]\<rparr>"

text \<open>
  \<^verbatim>\<open>try: c = m.getConstrByName(name); m.remove(c) except Exception: pass\<close>:
  one constraint of that name is removed when there is one.
\<close>

fun remove_first :: "cname \<Rightarrow> constr list \<Rightarrow> constr list" where
  "remove_first nm [] = []"
| "remove_first nm (c # cs) = (if c_name c = nm then cs else c # remove_first nm cs)"

definition remove_by_name :: "cname \<Rightarrow> grb_model \<Rightarrow> grb_model" where
  "remove_by_name nm m = m\<lparr>m_constrs := remove_first nm (m_constrs m)\<rparr>"

text \<open>What a solve gives back: the status code and, when there is one, the solution.\<close>

record solve_result =
  status :: nat
  solution :: "(var \<Rightarrow> real) option"

type_synonym solver = "grb_model \<Rightarrow> solve_result"

subsection \<open>Meaning of a model\<close>

definition eval_linexpr :: "(var \<Rightarrow> real) \<Rightarrow> linexpr \<Rightarrow> real" where
  "eval_linexpr a e = (\<Sum>(k, v) \<leftarrow> fst e. k * a v) + snd e"

definition sat_constr :: "(var \<Rightarrow> real) \<Rightarrow> constr \<Rightarrow> bool" where
  "sat_constr a c =
     (case c_sense c of
        LE \<Rightarrow> eval_linexpr a (c_lhs c) \<le> eval_linexpr a (c_rhs c)
      | EQ \<Rightarrow> eval_linexpr a (c_lhs c) = eval_linexpr a (c_rhs c)
      | GE \<Rightarrow> eval_linexpr a (c_lhs c) \<ge> eval_linexpr a (c_rhs c))"

definition sat_var :: "(var \<Rightarrow> real) \<Rightarrow> var_decl \<Rightarrow> bool" where
  "sat_var a d =
     (vd_lb d \<le> a (vd_var d)
      \<and> (case vd_ub d of None \<Rightarrow> True | Some u \<Rightarrow> a (vd_var d) \<le> u)
      \<and> (case vd_type d of Binary \<Rightarrow> a (vd_var d) = 0 \<or> a (vd_var d) = 1
          | Continuous \<Rightarrow> True))"

definition feasible :: "grb_model \<Rightarrow> (var \<Rightarrow> real) \<Rightarrow> bool" where
  "feasible m a = (list_all (sat_var a) (m_vars m) \<and> list_all (sat_constr a) (m_constrs m))"

definition infeasible :: "grb_model \<Rightarrow> bool" where
  "infeasible m = (\<forall>a. \<not> feasible m a)"

section \<open>The attacker\<close>

datatype norm_order = Linf | Lp nat

type_synonym pdict_t = "(nat \<times> (real \<times> var) list) list"

record attacker =
  pred_threshold :: real
  epsilon :: "real option"
  binary :: bool
  pos_json_input :: "tree list option"
  neg_json_input :: "tree list option"
  guard_val :: real
  round_digits :: int
  json_model :: "tree list option"
  order :: norm_order
  verbose :: bool
  n_threads :: nat
  node_list :: "node_wrapper list"
  leaf_v_list :: "real list"
  leaf_pos_list :: "(nat \<times> nat) list"
  leaf_count :: "nat list"
  m :: grb_model
  B_var :: "var option"
  llist :: "var list"
  plist :: "var list"
  pdict :: pdict_t
  obj_coeff_list :: "real list"
  obj_var_list :: "var list"
  obj_c :: real

text \<open>The loops of the constructor over the trees.\<close>

fun compile_trees ::
  "int \<Rightarrow> bool \<Rightarrow> nat \<Rightarrow> tree list \<Rightarrow> cstate \<times> nat list \<Rightarrow> error + (cstate \<times> nat list)" where
  "compile_trees rd neg i [] (st, lc) = Inr (st, lc)"
| "compile_trees rd neg i (t # ts) (st, lc) =
     (case dfs rd t i True neg st of
        Inl e \<Rightarrow> Inl e
      | Inr (ls, st') \<Rightarrow>
          compile_trees rd neg (Suc i) ts (st', lc @ [length (c_leaf_v_list st')]))"

definition compile_ensemble ::
  "int \<Rightarrow> tree list option \<Rightarrow> tree list option \<Rightarrow> tree list option
     \<Rightarrow> error + (cstate \<times> nat list)" where
  "compile_ensemble rd jm pos neg =
     (if pos = None \<or> neg = None then
        (case jm of
           None \<Rightarrow> Inl TypeError
         | Some ts \<Rightarrow>
             (case compile_trees rd False 0 ts (empty_cstate, [0]) of
                Inl e \<Rightarrow> Inl e
              | Inr (st, lc) \<Rightarrow>
                  if length ts + 1 \<noteq> length lc then Inl LeafCountError else Inr (st, lc)))
      else
        (case compile_trees rd False 0 (the pos) (empty_cstate, [0]) of
           Inl e \<Rightarrow> Inl e
         | Inr (st1, lc1) \<Rightarrow>
             (case compile_trees rd True (length (the pos)) (the neg) (st1, lc1) of
                Inl e \<Rightarrow> Inl e
              | Inr (st, lc) \<Rightarrow>
                  if length (the pos) + length (the neg) + 1 \<noteq> length lc
                  then Inl LeafCountError else Inr (st, lc))))"

text \<open>\<^verbatim>\<open>node_wrapper.add_grb_var\<close>\<close>

definition add_grb_var :: "var \<Rightarrow> var list \<Rightarrow> node_wrapper \<Rightarrow> node_wrapper" where
  "add_grb_var node_grb_var leaf_grb_var_list nw =
     nw\<lparr>p_grb_var := Some node_grb_var,
        l_grb_var_list :=
          map (\<lambda>(l, r, is_root). (map (\<lambda>i. leaf_grb_var_list ! i) l,
                                   map (\<lambda>i. leaf_grb_var_list ! i) r, is_root))
            (leaves_lists nw)\<rparr>"

text \<open>The loop that hands every unique split its variable \<^verbatim>\<open>plist[i]\<close>.\<close>

definition attach_vars :: "node_wrapper list \<Rightarrow> var list \<Rightarrow> var list \<Rightarrow> node_wrapper list" where
  "attach_vars nl pl ll = map (\<lambda>(i, nw). add_grb_var (pl ! i) ll nw) (enumerate 0 nl)"

text \<open>\<^verbatim>\<open>pdict\<close> is a dictionary in insertion order: feature \<open>\<mapsto>\<close> list of (threshold, variable).\<close>

fun pdict_add :: "nat \<Rightarrow> real \<times> var \<Rightarrow> pdict_t \<Rightarrow> pdict_t" where
  "pdict_add k e [] = [(k, [e])]"
| "pdict_add k e ((k', es) # r) =
     (if k = k' then (k', es @ [e]) # r else (k', es) # pdict_add k e r)"

fun build_pdict :: "nat \<Rightarrow> node_wrapper list \<Rightarrow> pdict_t \<Rightarrow> pdict_t" where
  "build_pdict i [] pd = pd"
| "build_pdict i (nw # nws) pd =
     build_pdict (Suc i) nws (pdict_add (attribute nw) (threshold nw, P i) pd)"

text \<open>
  The inner loop over consecutive splits of one feature: one ordering constraint per
  pair, and the running minimum of the threshold gaps.
\<close>

fun p_consis ::
  "nat \<Rightarrow> nat \<Rightarrow> (real \<times> var) list \<Rightarrow> constr list \<times> real \<Rightarrow> constr list \<times> real" where
  "p_consis key i (a # b # rest) (cs, min_diff) =
     p_consis key (Suc i) (b # rest)
       (cs @ [\<lparr>c_name = PConsis key i, c_lhs = le_var (snd a), c_sense = LE,
                c_rhs = le_var (snd b)\<rparr>],
        min min_diff (fst b - fst a))"
| "p_consis key i ps acc = acc"

text \<open>
  The body of the loop over the features: for a feature with more than one split, sort
  its list by threshold, add the ordering constraints, and shrink the guard value when
  the minimum gap is below twice the guard value.
\<close>

definition feature_step ::
  "nat \<Rightarrow> (real \<times> var) list \<Rightarrow> constr list \<Rightarrow> real
     \<Rightarrow> (real \<times> var) list \<times> constr list \<times> real" where
  "feature_step key ps cs g =
     (if 1 < length ps then
        (let ps' = sort_key fst ps;
             r = p_consis key 0 ps' (cs, 1000);
             min_diff = snd r
         in (ps', fst r, if min_diff < 2 * g then min_diff / 3 else g))
      else (ps, cs, g))"

fun features_loop ::
  "pdict_t \<Rightarrow> constr list \<Rightarrow> real \<Rightarrow> pdict_t \<times> constr list \<times> real" where
  "features_loop [] cs g = ([], cs, g)"
| "features_loop ((key, ps) # rest) cs g =
     (case feature_step key ps cs g of
        (ps', cs', g') \<Rightarrow>
          (case features_loop rest cs' g' of
             (rest', cs'', g'') \<Rightarrow> ((key, ps') # rest', cs'', g'')))"

definition leaf_sum_constrs :: "nat list \<Rightarrow> var list \<Rightarrow> constr list" where
  "leaf_sum_constrs lc ll =
     map (\<lambda>i. \<lparr>c_name = LeafSumOne i,
               c_lhs = LinExpr (replicate (lc ! (i + 1) - lc ! i) 1)
                         (map (\<lambda>j. ll ! j) [lc ! i ..< lc ! (i + 1)]),
               c_sense = EQ, c_rhs = le_const 1\<rparr>)
       [0 ..< length lc - 1]"

definition node_leaf_pair :: "var list \<Rightarrow> var \<Rightarrow> nat \<Rightarrow> nat \<Rightarrow> nat list \<times> nat list \<times> bool \<Rightarrow> constr list" where
  "node_leaf_pair ll p j k item =
     (case item of (left, right, is_root) \<Rightarrow>
        (let left_l = map (\<lambda>i. ll ! i) left;
             right_l = map (\<lambda>i. ll ! i) right
         in if is_root then
              [\<lparr>c_name = RootLeft j k,
                c_lhs = le_minus_var (LinExpr (replicate (length left_l) 1) left_l) p,
                c_sense = EQ, c_rhs = le_const 0\<rparr>,
               \<lparr>c_name = RootRight j k,
                c_lhs = le_plus_var (LinExpr (replicate (length right_l) 1) right_l) p,
                c_sense = EQ, c_rhs = le_const 1\<rparr>]
            else
              [\<lparr>c_name = NodeLeft j k,
                c_lhs = le_minus_var (LinExpr (replicate (length left_l) 1) left_l) p,
                c_sense = LE, c_rhs = le_const 0\<rparr>,
               \<lparr>c_name = NodeRight j k,
                c_lhs = le_plus_var (LinExpr (replicate (length right_l) 1) right_l) p,
                c_sense = LE, c_rhs = le_const 1\<rparr>]))"

definition node_leaf_constrs :: "node_wrapper list \<Rightarrow> var list \<Rightarrow> var list \<Rightarrow> constr list" where
  "node_leaf_constrs nl pl ll =
     concat (map (\<lambda>j.
        concat (map (\<lambda>k. node_leaf_pair ll (pl ! j) j k (leaves_lists (nl ! j) ! k))
                  [0 ..< length (leaves_lists (nl ! j))]))
       [0 ..< length nl])"

text \<open>
  The variables: one binary per unique split, one continuous in [0, 1] per leaf, and the
  distance variable, bounded by \<^verbatim>\<open>epsilon - 0.0001\<close> when \<^verbatim>\<open>epsilon\<close> is truthy.
\<close>

definition truthy :: "real option \<Rightarrow> bool" where
  "truthy e = (case e of None \<Rightarrow> False | Some v \<Rightarrow> v \<noteq> 0)"

definition B_decl :: "real option \<Rightarrow> norm_order \<Rightarrow> var_decl list" where
  "B_decl eps ord =
     (if truthy eps then
        [\<lparr>vd_var = B, vd_type = Continuous, vd_lb = 0, vd_ub = Some (the eps - 0.0001)\<rparr>]
      else if ord = Linf then
        [\<lparr>vd_var = B, vd_type = Continuous, vd_lb = 0, vd_ub = None\<rparr>]
      else [])"

definition init ::
  "tree list option \<Rightarrow> real option \<Rightarrow> norm_order \<Rightarrow> real \<Rightarrow> int
     \<Rightarrow> tree list option \<Rightarrow> tree list option \<Rightarrow> real \<Rightarrow> bool \<Rightarrow> nat \<Rightarrow> error + attacker" where
  "init jm eps ord gv rd pos neg pt vb nt =
     (if \<not> (eps = None \<or> ord = Linf) then Inl AssertionError
      else
        (case compile_ensemble rd jm pos neg of
           Inl e \<Rightarrow> Inl e
         | Inr (st, lc) \<Rightarrow>
             (let nl = c_node_list st;
                  pl = map P [0 ..< length nl];
                  ll = map L [0 ..< length (c_leaf_v_list st)];
                  vars = map (\<lambda>i. \<lparr>vd_var = P i, vd_type = Binary, vd_lb = 0, vd_ub = None\<rparr>)
                           [0 ..< length nl]
                       @ map (\<lambda>i. \<lparr>vd_var = L i, vd_type = Continuous, vd_lb = 0, vd_ub = Some 1\<rparr>)
                           [0 ..< length (c_leaf_v_list st)]
                       @ B_decl eps ord;
                  nl' = attach_vars nl pl ll;
                  pd = build_pdict 0 nl' [];
                  (pd', cs, g) = features_loop pd [] gv;
                  cs' = cs @ leaf_sum_constrs lc ll @ node_leaf_constrs nl' pl ll
              in Inr \<lparr>pred_threshold = pt, epsilon = eps,
                      binary = (pos = None \<or> neg = None),
                      pos_json_input = pos, neg_json_input = neg,
                      guard_val = g, round_digits = rd, json_model = jm, order = ord,
                      verbose = vb, n_threads = nt,
                      node_list = nl', leaf_v_list = c_leaf_v_list st,
                      leaf_pos_list = c_leaf_pos_list st, leaf_count = lc,
                      m = \<lparr>m_vars = vars, m_constrs = cs', m_objective = le_const 0\<rparr>,
                      B_var = (if B_decl eps ord = [] then None else Some B),
                      llist = ll, plist = pl, pdict = pd',
                      obj_coeff_list = [], obj_var_list = [], obj_c = 0\<rparr>)))"

section \<open>The verifier\<close>

text \<open>
  \<^verbatim>\<open>check\<close> walks each tree on the input with the thresholds as the JSON has them and
  sums the leaf values.  It looks at \<^verbatim>\<open>children[0]\<close> and \<^verbatim>\<open>children[1]\<close> only.
\<close>

definition pick_child :: "tree list \<Rightarrow> nat \<Rightarrow> error + tree" where
  "pick_child cs i =
     (case cs of
        [] \<Rightarrow> Inl IndexError
      | c0 # r \<Rightarrow>
          if nodeid c0 = i then Inr c0
          else (case r of
                  [] \<Rightarrow> Inl IndexError
                | c1 # r' \<Rightarrow> if nodeid c1 = i then Inr c1 else Inl ChildNotFound))"

lemma pick_child_mem: "pick_child cs i = Inr t \<Longrightarrow> t \<in> set cs"
  by (auto simp: pick_child_def split: list.splits if_splits)

lemma pick_child_size:
  "pick_child cs i = Inr t \<Longrightarrow> size t < Suc (size_list size cs)"
  using pick_child_mem [of cs i t] size_list_estimation' [of t cs "size t" size]
  by (simp add: less_Suc_eq_le)

function check_tree :: "real list \<Rightarrow> tree \<Rightarrow> error + real" where
  "check_tree x (Leaf nid v) = Inr v"
| "check_tree x (Split nid f thr y n cs) =
     (if attribute_of f < length x then
        (case pick_child cs (if x ! attribute_of f < thr then y else n) of
           Inl e \<Rightarrow> Inl e
         | Inr c \<Rightarrow> check_tree x c)
      else Inl IndexError)"
  by pat_completeness auto
termination
  by (relation "measure (\<lambda>(x, t). size t)") (auto dest: pick_child_size)

fun check_trees :: "real list \<Rightarrow> tree list \<Rightarrow> error + real" where
  "check_trees x [] = Inr 0"
| "check_trees x (t # ts) =
     (case check_tree x t of
        Inl e \<Rightarrow> Inl e
      | Inr v \<Rightarrow> (case check_trees x ts of Inl e \<Rightarrow> Inl e | Inr s \<Rightarrow> Inr (v + s)))"

definition check :: "real list \<Rightarrow> tree list option \<Rightarrow> error + real" where
  "check x json_file = (case json_file of None \<Rightarrow> Inl TypeError | Some ts \<Rightarrow> check_trees x ts)"

text \<open>The prediction both queries and the scoring compute from \<^verbatim>\<open>check\<close>.\<close>

definition predict :: "attacker \<Rightarrow> real list \<Rightarrow> error + int" where
  "predict st x =
     (if binary st then
        (case check x (json_model st) of
           Inl e \<Rightarrow> Inl e
         | Inr v \<Rightarrow> Inr (if pred_threshold st \<le> v then 1 else 0))
      else
        (case check x (pos_json_input st) of
           Inl e \<Rightarrow> Inl e
         | Inr pv \<Rightarrow>
             (case check x (neg_json_input st) of
                Inl e \<Rightarrow> Inl e
              | Inr nv \<Rightarrow> Inr (if nv \<le> pv then 1 else 0))))"

section \<open>The distance linearizer\<close>

text \<open>
  \<^verbatim>\<open>axis = [-inf] + thresholds + [inf]\<close>.  The comparisons with the infinite ends are
  decided without arithmetic; a weight that would be infinite is reported as an error.
\<close>

datatype axis_pt = NegInf | Fin real | PosInf

fun x_lt :: "real \<Rightarrow> axis_pt \<Rightarrow> bool" where
  "x_lt x NegInf = False"
| "x_lt x (Fin a) = (x < a)"
| "x_lt x PosInf = True"

fun x_ge :: "real \<Rightarrow> axis_pt \<Rightarrow> bool" where
  "x_ge x NegInf = True"
| "x_ge x (Fin a) = (a \<le> x)"
| "x_ge x PosInf = False"

definition w_entry :: "real \<Rightarrow> nat \<Rightarrow> real \<Rightarrow> axis_pt \<times> axis_pt \<Rightarrow> error + real" where
  "w_entry g rho x p =
     (case p of (lo, hi) \<Rightarrow>
        if x_lt x hi \<and> x_ge x lo then Inr 0
        else if x_lt x hi \<and> x_lt x lo then
          (case lo of Fin a \<Rightarrow> Inr (\<bar>x - a\<bar> ^ rho) | _ \<Rightarrow> Inl InfiniteWeight)
        else if x_ge x hi \<and> x_ge x lo then
          (case hi of Fin a \<Rightarrow> Inr (\<bar>x - a + g\<bar> ^ rho) | _ \<Rightarrow> Inl InfiniteWeight)
        else Inl WrongAxisOrdering)"

fun map_err :: "('a \<Rightarrow> error + 'b) \<Rightarrow> 'a list \<Rightarrow> error + 'b list" where
  "map_err f [] = Inr []"
| "map_err f (a # as) =
     (case f a of
        Inl e \<Rightarrow> Inl e
      | Inr b \<Rightarrow> (case map_err f as of Inl e \<Rightarrow> Inl e | Inr bs \<Rightarrow> Inr (b # bs)))"

text \<open>\<^verbatim>\<open>for i in range(len(w) - 1): w[i] -= w[i + 1]\<close>\<close>

fun differ :: "real list \<Rightarrow> real list" where
  "differ (a # b # r) = (a - b) # differ (b # r)"
| "differ w = w"

text \<open>
  The weights of one feature: the loop runs from the last interval down to the first,
  so the first error raised is that of the highest interval.
\<close>

definition weights :: "real \<Rightarrow> nat \<Rightarrow> real list \<Rightarrow> nat \<Rightarrow> (real \<times> var) list \<Rightarrow> error + real list" where
  "weights g rho x key ps =
     (if length ps = 0 then Inl EmptyPdictList
      else if \<not> key < length x then Inl IndexError
      else
        (let axis = [NegInf] @ map (\<lambda>item. Fin (fst item)) ps @ [PosInf]
         in case map_err (w_entry g rho (x ! key)) (rev (zip axis (tl axis))) of
              Inl e \<Rightarrow> Inl e
            | Inr ws \<Rightarrow> Inr (differ (rev ws))))"

definition mislabel_constr :: "attacker \<Rightarrow> int \<Rightarrow> constr" where
  "mislabel_constr st label =
     (if \<not> binary st \<or> label = 1 then
        \<lparr>c_name = Mislabel, c_lhs = LinExpr (leaf_v_list st) (llist st), c_sense = LE,
         c_rhs = le_const (pred_threshold st - guard_val st)\<rparr>
      else
        \<lparr>c_name = Mislabel, c_lhs = LinExpr (leaf_v_list st) (llist st), c_sense = GE,
         c_rhs = le_const (pred_threshold st + guard_val st)\<rparr>)"

definition replace_mislabel :: "attacker \<Rightarrow> int \<Rightarrow> grb_model \<Rightarrow> grb_model" where
  "replace_mislabel st label gm =
     (let c = mislabel_constr st label
      in addConstr (c_name c) (c_lhs c) (c_sense c) (c_rhs c) (remove_by_name Mislabel gm))"

definition linf_constr :: "nat \<Rightarrow> real list \<Rightarrow> (real \<times> var) list \<Rightarrow> var \<Rightarrow> grb_model \<Rightarrow> grb_model" where
  "linf_constr key w ps b gm =
     addConstr (LinfConstr key)
       (le_plus_const (LinExpr (butlast w) (map snd ps)) (last w)) LE (le_var b)
       (remove_by_name (LinfConstr key) gm)"

section \<open>The feasibility query\<close>

fun attack_loop :: "attacker \<Rightarrow> real list \<Rightarrow> pdict_t \<Rightarrow> grb_model \<Rightarrow> error + grb_model" where
  "attack_loop st x [] gm = Inr gm"
| "attack_loop st x ((key, ps) # rest) gm =
     (case weights (guard_val st) 1 x key ps of
        Inl e \<Rightarrow> Inl e
      | Inr w \<Rightarrow>
          (case B_var st of
             None \<Rightarrow> Inl AttributeError
           | Some b \<Rightarrow> attack_loop st x rest (linf_constr key w ps b gm)))"

definition attack :: "solver \<Rightarrow> attacker \<Rightarrow> real list \<Rightarrow> int \<Rightarrow> error + (bool \<times> attacker)" where
  "attack slv st X label =
     (case attack_loop st X (pdict st) (replace_mislabel st label (m st)) of
        Inl e \<Rightarrow> Inl e
      | Inr gm \<Rightarrow>
          (let gm' = gm\<lparr>m_objective := le_const 0\<rparr>
           in Inr (status (slv gm') = 3, st\<lparr>m := gm'\<rparr>)))"

section \<open>The minimal-distance query\<close>

text \<open>The body of the reconstruction loop, for one split of feature \<open>key\<close>.\<close>

definition recon_node :: "real \<Rightarrow> (var \<Rightarrow> real) \<Rightarrow> nat \<Rightarrow> real \<times> var \<Rightarrow> real list \<Rightarrow> real list" where
  "recon_node g sol key node x =
     (let x1 = (if sol (snd node) > 0.5 \<and> x ! key \<ge> fst node
                then x[key := fst node - g] else x);
          x2 = (if sol (snd node) \<le> 0.5 \<and> x1 ! key < fst node
                then x1[key := fst node + g] else x1)
      in x2)"

definition reconstruct :: "real \<Rightarrow> (var \<Rightarrow> real) \<Rightarrow> pdict_t \<Rightarrow> real list \<Rightarrow> real list" where
  "reconstruct g sol pd x =
     fold (\<lambda>(key, ps) x'. fold (recon_node g sol key) ps x') pd x"

record objective_acc =
  oa_model :: grb_model
  oa_coeffs :: "real list"
  oa_vars :: "var list"
  oa_c :: real

fun objective_loop ::
  "attacker \<Rightarrow> nat \<Rightarrow> real list \<Rightarrow> pdict_t \<Rightarrow> objective_acc \<Rightarrow> error + objective_acc" where
  "objective_loop st rho x [] acc = Inr acc"
| "objective_loop st rho x ((key, ps) # rest) acc =
     (case weights (guard_val st) rho x key ps of
        Inl e \<Rightarrow> Inl e
      | Inr w \<Rightarrow>
          if order st \<noteq> Linf then
            objective_loop st rho x rest
              (acc\<lparr>oa_c := oa_c acc + last w,
                   oa_coeffs := oa_coeffs acc @ butlast w,
                   oa_vars := oa_vars acc @ map snd ps\<rparr>)
          else
            (case B_var st of
               None \<Rightarrow> Inl AttributeError
             | Some b \<Rightarrow>
                 objective_loop st rho x rest
                   (acc\<lparr>oa_model := linf_constr key w ps b (oa_model acc)\<rparr>)))"

definition optimal_adversarial_example ::
  "solver \<Rightarrow> attacker \<Rightarrow> real list \<Rightarrow> int \<Rightarrow> error + (real list option \<times> attacker)" where
  "optimal_adversarial_example slv st sample label =
     (case predict st sample of
        Inl e \<Rightarrow> Inl e
      | Inr pred \<Rightarrow>
          if pred \<noteq> label then Inr (Some sample, st)
          else
            (let gm0 = replace_mislabel st label (m st);
                 rho = (case order st of Linf \<Rightarrow> 1 | Lp k \<Rightarrow> k);
                 acc0 = (if order st \<noteq> Linf
                         then \<lparr>oa_model = gm0, oa_coeffs = [], oa_vars = [], oa_c = 0\<rparr>
                         else \<lparr>oa_model = gm0, oa_coeffs = obj_coeff_list st,
                               oa_vars = obj_var_list st, oa_c = obj_c st\<rparr>)
             in case objective_loop st rho sample (pdict st) acc0 of
                  Inl e \<Rightarrow> Inl e
                | Inr acc \<Rightarrow>
                    (case (if order st \<noteq> Linf
                           then Inr (le_plus_const (LinExpr (oa_coeffs acc) (oa_vars acc)) (oa_c acc))
                           else (case B_var st of None \<Rightarrow> Inl AttributeError
                                 | Some b \<Rightarrow> Inr (le_var b))) of
                       Inl e \<Rightarrow> Inl e
                     | Inr obj \<Rightarrow>
                         (let gm = (oa_model acc)\<lparr>m_objective := obj\<rparr>;
                              st' = st\<lparr>m := gm, obj_coeff_list := oa_coeffs acc,
                                       obj_var_list := oa_vars acc, obj_c := oa_c acc\<rparr>;
                              res = slv gm
                          in if status res = 3 then Inr (None, st')
                             else
                               (case solution res of
                                  None \<Rightarrow>
                                    if list_all (\<lambda>(key, ps). ps = []) (pdict st)
                                    then (case predict st' sample of
                                            Inl e \<Rightarrow> Inl e
                                          | Inr p \<Rightarrow> Inr (Some sample, st'))
                                    else Inl AttributeError
                                | Some sol \<Rightarrow>
                                    (let x = reconstruct (guard_val st) sol (pdict st) sample
                                     in case predict st' x of
                                          Inl e \<Rightarrow> Inl e
                                        | Inr p \<Rightarrow> Inr (Some x, st')))))))"

section \<open>The multiclass decomposer\<close>

record mc_attacker =
  n_classes :: nat
  mc_order :: norm_order
  binary_attackers :: "attacker option list list"

text \<open>Tree \<open>i\<close> goes to the sub-ensemble of class \<open>i mod n_classes\<close>.\<close>

definition one_vs_all_models :: "nat \<Rightarrow> tree list \<Rightarrow> tree list list" where
  "one_vs_all_models n ts =
     map (\<lambda>c. map snd (filter (\<lambda>(i, t). i mod n = c) (enumerate 0 ts))) [0 ..< n]"

text \<open>
  The inner loop of the constructor over \<^verbatim>\<open>other_label\<close>.  When the two labels are equal,
  \<^verbatim>\<open>None\<close> is appended; the loop body then goes on to build and append the attacker of
  that pair as well.
\<close>

fun build_attackers ::
  "(nat \<Rightarrow> nat \<Rightarrow> error + attacker) \<Rightarrow> nat \<Rightarrow> nat list \<Rightarrow> attacker option list
     \<Rightarrow> error + attacker option list" where
  "build_attackers mk class_label [] attackers = Inr attackers"
| "build_attackers mk class_label (other_label # rest) attackers =
     (let attackers1 = (if class_label = other_label then attackers @ [None] else attackers)
      in case mk class_label other_label of
           Inl e \<Rightarrow> Inl e
         | Inr attacker \<Rightarrow>
             build_attackers mk class_label rest (attackers1 @ [Some attacker]))"

fun build_rows ::
  "(nat \<Rightarrow> nat \<Rightarrow> error + attacker) \<Rightarrow> nat \<Rightarrow> nat list \<Rightarrow> attacker option list list
     \<Rightarrow> error + attacker option list list" where
  "build_rows mk n [] rows = Inr rows"
| "build_rows mk n (class_label # rest) rows =
     (case build_attackers mk class_label [0 ..< n] [] of
        Inl e \<Rightarrow> Inl e
      | Inr attackers \<Rightarrow> build_rows mk n rest (rows @ [attackers]))"

definition pair_attacker ::
  "tree list list \<Rightarrow> norm_order \<Rightarrow> real \<Rightarrow> int \<Rightarrow> real \<Rightarrow> bool \<Rightarrow> nat
     \<Rightarrow> nat \<Rightarrow> nat \<Rightarrow> error + attacker" where
  "pair_attacker models ord gv rd pt vb nt class_label other_label =
     init None None ord gv rd (Some (models ! class_label)) (Some (models ! other_label))
       pt vb nt"

definition mc_init ::
  "tree list \<Rightarrow> nat \<Rightarrow> norm_order \<Rightarrow> real \<Rightarrow> int \<Rightarrow> real \<Rightarrow> bool \<Rightarrow> nat
     \<Rightarrow> error + mc_attacker" where
  "mc_init jm n ord gv rd pt vb nt =
     (if n \<le> 2 then Inl NotEnoughClasses
      else
        (case build_rows (pair_attacker (one_vs_all_models n jm) ord gv rd pt vb nt)
                n [0 ..< n] [] of
           Inl e \<Rightarrow> Inl e
         | Inr rows \<Rightarrow> Inr \<lparr>n_classes = n, mc_order = ord, binary_attackers = rows\<rparr>))"

text \<open>\<^verbatim>\<open>np.linalg.norm(sample - adv_example, ord=self.order)\<close>\<close>

definition distance :: "norm_order \<Rightarrow> real list \<Rightarrow> real list \<Rightarrow> error + real" where
  "distance ord a b =
     (let d = map2 (\<lambda>u v. u - v) a b
      in case ord of
           Linf \<Rightarrow> if d = [] then Inl ValueError else Inr (Max (set (map abs d)))
         | Lp k \<Rightarrow>
             if k = 0 then Inr (of_nat (length (filter (\<lambda>v. v \<noteq> 0) d)))
             else Inr (root k (\<Sum>v \<leftarrow> d. \<bar>v\<bar> ^ k)))"

record mc_acc =
  acc_attackers :: "attacker option list list"
  best_adv_example :: "real list option"
  best_distance :: "real option"

fun mc_loop ::
  "solver \<Rightarrow> norm_order \<Rightarrow> real list \<Rightarrow> nat \<Rightarrow> nat list \<Rightarrow> mc_acc \<Rightarrow> error + mc_acc" where
  "mc_loop slv ord sample label [] acc = Inr acc"
| "mc_loop slv ord sample label (other_label # rest) acc =
     (if other_label = label then mc_loop slv ord sample label rest acc
      else if \<not> label < length (acc_attackers acc) then Inl IndexError
      else if \<not> other_label < length (acc_attackers acc ! label) then Inl IndexError
      else
        (case acc_attackers acc ! label ! other_label of
           None \<Rightarrow> Inl AttributeError
         | Some attacker \<Rightarrow>
             (case optimal_adversarial_example slv attacker sample 1 of
                Inl e \<Rightarrow> Inl e
              | Inr (res, attacker') \<Rightarrow>
                  (let acc1 = acc\<lparr>acc_attackers := (acc_attackers acc)
                                   [label := (acc_attackers acc ! label)
                                               [other_label := Some attacker']]\<rparr>
                   in case res of
                        None \<Rightarrow> mc_loop slv ord sample label rest acc1
                      | Some adv_example \<Rightarrow>
                          (case distance ord sample adv_example of
                             Inl e \<Rightarrow> Inl e
                           | Inr d \<Rightarrow>
                               if (case best_distance acc1 of None \<Rightarrow> True | Some bd \<Rightarrow> d < bd)
                               then mc_loop slv ord sample label rest
                                      (acc1\<lparr>best_adv_example := Some adv_example,
                                            best_distance := Some d\<rparr>)
                               else mc_loop slv ord sample label rest acc1)))))"

definition mc_optimal_adversarial_example ::
  "solver \<Rightarrow> mc_attacker \<Rightarrow> real list \<Rightarrow> nat \<Rightarrow> error + (real list \<times> mc_attacker)" where
  "mc_optimal_adversarial_example slv mc sample label =
     (case mc_loop slv (mc_order mc) sample label [0 ..< n_classes mc]
             \<lparr>acc_attackers = binary_attackers mc, best_adv_example = None,
              best_distance = None\<rparr> of
        Inl e \<Rightarrow> Inl e
      | Inr acc \<Rightarrow>
          (case best_adv_example acc of
             None \<Rightarrow> Inl NoAdversarialExample
           | Some adv \<Rightarrow> Inr (adv, mc\<lparr>binary_attackers := acc_attackers acc\<rparr>)))"

section \<open>Example ensembles\<close>

text \<open>
  A single tree with one split on feature 0 at 5.0, leaf \<open>-1\<close> below and \<open>+1\<close> at or above,
  and the attacker built from it with the default guard value and rounding.
\<close>

definition stump :: tree where
  "stump = Split 0 (StrRef CHR ''f'' 0) 5 1 2 [Leaf 1 (- 1), Leaf 2 1]"

definition stump_attacker :: "real option \<Rightarrow> attacker" where
  "stump_attacker eps = projr (init (Some [stump]) eps Linf (5 / 1000000) 6 None None 0 False 1)"

definition no_solver :: solver where
  "no_solver gm = \<lparr>status = 3, solution = None\<rparr>"

text \<open>
  Six stumps on feature 0 for a three-class model: trees 0 and 3 belong to class 0,
  trees 1 and 4 to class 1, trees 2 and 5 to class 2.
\<close>

definition class_stump :: "real \<Rightarrow> real \<Rightarrow> real \<Rightarrow> tree" where
  "class_stump thr lo hi = Split 0 (IntRef 0) thr 1 2 [Leaf 1 lo, Leaf 2 hi]"

definition six_stumps :: "tree list" where
  "six_stumps = [class_stump 1 1 0, class_stump 2 0 1, class_stump 3 0 2,
                 class_stump 1 2 0, class_stump 2 0 3, class_stump 3 0 4]"

text \<open>The pair of sub-ensembles an entry of \<^verbatim>\<open>binary_attackers\<close> was built from.\<close>

definition sub_models :: "attacker option \<Rightarrow> (tree list option \<times> tree list option) option" where
  "sub_models a = map_option (\<lambda>a. (pos_json_input a, neg_json_input a)) a"

text \<open>The model of the feasibility query on the stump for the sample [3] and label 0,
  with upper bound \<open>u\<close> on the distance variable.\<close>

definition stump_query_model :: "real \<Rightarrow> grb_model" where
  "stump_query_model u =
    \<lparr>m_vars =
       [\<lparr>vd_var = P 0, vd_type = Binary, vd_lb = 0, vd_ub = None\<rparr>,
        \<lparr>vd_var = L 0, vd_type = Continuous, vd_lb = 0, vd_ub = Some 1\<rparr>,
        \<lparr>vd_var = L 1, vd_type = Continuous, vd_lb = 0, vd_ub = Some 1\<rparr>,
        \<lparr>vd_var = B, vd_type = Continuous, vd_lb = 0, vd_ub = Some u\<rparr>],
     m_constrs =
       [\<lparr>c_name = LeafSumOne 0, c_lhs = ([(1, L 0), (1, L 1)], 0), c_sense = EQ,
         c_rhs = ([], 1)\<rparr>,
        \<lparr>c_name = RootLeft 0 0, c_lhs = ([(1, L 0), (- 1, P 0)], 0), c_sense = EQ,
         c_rhs = ([], 0)\<rparr>,
        \<lparr>c_name = RootRight 0 0, c_lhs = ([(1, L 1), (1, P 0)], 0), c_sense = EQ,
         c_rhs = ([], 1)\<rparr>,
        \<lparr>c_name = Mislabel, c_lhs = ([(- 1, L 0), (1, L 1)], 0), c_sense = GE,
         c_rhs = ([], 1 / 200000)\<rparr>,
        \<lparr>c_name = LinfConstr 0, c_lhs = ([(- 2, P 0)], 2), c_sense = LE,
         c_rhs = ([(1, B)], 0)\<rparr>],
     m_objective = ([], 0)\<rparr>"

text \<open>Two stumps whose thresholds differ only beyond the sixth decimal digit.\<close>

definition two_stumps :: "tree list" where
  "two_stumps = [stump, Split 7 (IntRef 0) 5.0000001 8 9 [Leaf 8 (- 2), Leaf 9 2]]"

text \<open>A tree of depth two whose two thresholds on feature 0 are 0.000003 apart.\<close>

definition close_tree :: tree where
  "close_tree =
     Split 0 (IntRef 0) 5 1 2
       [Leaf 1 (- 1), Split 2 (IntRef 0) 5.000003 3 4 [Leaf 3 1, Leaf 4 (- 1)]]"




text \<open>The attacker built from the tree of depth two.\<close>

definition close_attacker :: attacker where
  "close_attacker = projr (init (Some [close_tree]) None Linf (5 / 1000000) 6 None None 0 False 1)"

section \<open>Facts about the constructor\<close>

lemma init_InrD:
  assumes "init jm eps ord gv rd pos neg pt vb nt = Inr a"
  obtains st lc pd cs g where
    "eps = None \<or> ord = Linf"
    "compile_ensemble rd jm pos neg = Inr (st, lc)"
    "features_loop (build_pdict 0 (node_list a) []) [] gv = (pd, cs, g)"
    "node_list a = attach_vars (c_node_list st) (plist a) (llist a)"
    "plist a = map P [0 ..< length (c_node_list st)]"
    "llist a = map L [0 ..< length (c_leaf_v_list st)]"
    "leaf_v_list a = c_leaf_v_list st"
    "leaf_count a = lc"
    "pdict a = pd" "guard_val a = g"
    "m_constrs (m a) = cs @ leaf_sum_constrs lc (llist a)
                        @ node_leaf_constrs (node_list a) (plist a) (llist a)"
    "m_vars (m a) =
       map (\<lambda>i. \<lparr>vd_var = P i, vd_type = Binary, vd_lb = 0, vd_ub = None\<rparr>)
         [0 ..< length (c_node_list st)]
       @ map (\<lambda>i. \<lparr>vd_var = L i, vd_type = Continuous, vd_lb = 0, vd_ub = Some 1\<rparr>)
           [0 ..< length (c_leaf_v_list st)]
       @ B_decl eps ord"
    "B_var a = (if B_decl eps ord = [] then None else Some B)"
    "binary a = (pos = None \<or> neg = None)" "json_model a = jm"
    "pos_json_input a = pos" "neg_json_input a = neg"
    "pred_threshold a = pt" "order a = ord" "epsilon a = eps" "round_digits a = rd"
  using assms
  unfolding init_def Let_def
  by (auto split: if_splits sum.splits prod.splits)

lemma length_attach_vars [simp]: "length (attach_vars nl pl ll) = length nl"
  by (simp add: attach_vars_def)

lemma nth_attach_vars:
  "j < length nl \<Longrightarrow> attach_vars nl pl ll ! j = add_grb_var (pl ! j) ll (nl ! j)"
  by (simp add: attach_vars_def nth_enumerate_eq)

lemma add_grb_var_fields [simp]:
  "attribute (add_grb_var v ll nw) = attribute nw"
  "threshold (add_grb_var v ll nw) = threshold nw"
  "node_pos (add_grb_var v ll nw) = node_pos nw"
  "leaves_lists (add_grb_var v ll nw) = leaves_lists nw"
  "p_grb_var (add_grb_var v ll nw) = Some v"
  by (simp_all add: add_grb_var_def)

lemma node_leaf_pair_subset:
  assumes "j < length nl" and "k < length (leaves_lists (nl ! j))"
  shows "set (node_leaf_pair ll (pl ! j) j k (leaves_lists (nl ! j) ! k))
           \<subseteq> set (node_leaf_constrs nl pl ll)"
proof
  fix c
  assume c: "c \<in> set (node_leaf_pair ll (pl ! j) j k (leaves_lists (nl ! j) ! k))"
  have "\<exists>j' \<in> {0 ..< length nl}. \<exists>k' \<in> {0 ..< length (leaves_lists (nl ! j'))}.
          c \<in> set (node_leaf_pair ll (pl ! j') j' k' (leaves_lists (nl ! j') ! k'))"
    using assms c by (intro bexI [of _ j] bexI [of _ k]) simp_all
  then show "c \<in> set (node_leaf_constrs nl pl ll)"
    by (simp add: node_leaf_constrs_def)
qed

section \<open>Shape of the per-feature split lists\<close>

lemma pdict_add_nonempty:
  "\<forall>(k, ps) \<in> set pd. ps \<noteq> [] \<Longrightarrow> \<forall>(k, ps) \<in> set (pdict_add key e pd). ps \<noteq> []"
  by (induction key e pd rule: pdict_add.induct) auto

lemma build_pdict_nonempty:
  "\<forall>(k, ps) \<in> set pd. ps \<noteq> [] \<Longrightarrow> \<forall>(k, ps) \<in> set (build_pdict i nl pd). ps \<noteq> []"
proof (induction i nl pd rule: build_pdict.induct)
  case (1 i pd)
  then show ?case by simp
next
  case (2 i nw nws pd)
  show ?case
    unfolding build_pdict.simps
    by (rule 2(1)) (rule pdict_add_nonempty [OF 2(2)])
qed

lemma feature_step_fst: "fst (feature_step key ps cs g) = sort_key fst ps"
proof (cases "1 < length ps")
  case True
  then show ?thesis by (simp add: feature_step_def Let_def)
next
  case False
  then have "sort_key fst ps = ps"
    by (cases ps) (auto simp: length_Suc_conv)
  then show ?thesis using False by (simp add: feature_step_def)
qed

lemma features_loop_pdict:
  "fst (features_loop pd cs g) = map (\<lambda>(k, ps). (k, sort_key fst ps)) pd"
proof (induction pd cs g rule: features_loop.induct)
  case (1 cs g)
  show ?case by simp
next
  case (2 key ps rest cs g)
  obtain ps' cs' g' where st: "feature_step key ps cs g = (ps', cs', g')"
    by (cases "feature_step key ps cs g") auto
  have ps': "ps' = sort_key fst ps" using feature_step_fst [of key ps cs g] st by simp
  obtain rest' cs'' g'' where r: "features_loop rest cs' g' = (rest', cs'', g'')"
    by (cases "features_loop rest cs' g'") auto
  have "rest' = map (\<lambda>(k, ps). (k, sort_key fst ps)) rest"
    using 2 [OF st [symmetric] refl] r by simp
  then show ?case using st r ps' by simp
qed


subsection \<open>The weights of a sorted split list are defined\<close>

lemma map_err_Inr:
  "\<forall>a \<in> set as. \<exists>b. f a = Inr b \<Longrightarrow> \<exists>bs. map_err f as = Inr bs \<and> length bs = length as"
proof (induction as)
  case Nil
  show ?case by simp
next
  case (Cons a as)
  then obtain b bs where "f a = Inr b" "map_err f as = Inr bs" "length bs = length as"
    by auto
  then show ?case by simp
qed

lemma w_entry_Inr:
  assumes "lo \<noteq> PosInf" "hi \<noteq> NegInf"
    and "\<forall>a b. lo = Fin a \<longrightarrow> hi = Fin b \<longrightarrow> a \<le> b"
  shows "\<exists>w. w_entry g rho x (lo, hi) = Inr w"
proof (cases lo)
  case NegInf
  then show ?thesis using assms(2) by (cases hi) (auto simp: w_entry_def)
next
  case (Fin a)
  show ?thesis
  proof (cases hi)
    case NegInf
    then show ?thesis using assms(2) by simp
  next
    case (Fin b)
    then have "a \<le> b" using assms(3) \<open>lo = Fin a\<close> by simp
    then show ?thesis using Fin \<open>lo = Fin a\<close> by (auto simp: w_entry_def)
  next
    case PosInf
    then show ?thesis using \<open>lo = Fin a\<close> by (auto simp: w_entry_def)
  qed
next
  case PosInf
  then show ?thesis using assms(1) by simp
qed

lemma axis_pairs_ok:
  assumes "sorted ts" "a \<noteq> PosInf" "\<And>v t. a = Fin v \<Longrightarrow> t \<in> set ts \<Longrightarrow> v \<le> t"
    and "(lo, hi) \<in> set (zip (a # map Fin ts @ [PosInf]) (map Fin ts @ [PosInf]))"
  shows "lo \<noteq> PosInf \<and> hi \<noteq> NegInf \<and> (\<forall>u v. lo = Fin u \<longrightarrow> hi = Fin v \<longrightarrow> u \<le> v)"
  using assms
proof (induction ts arbitrary: a)
  case Nil
  then show ?case by auto
next
  case (Cons t ts)
  from Cons.prems(4) consider "(lo, hi) = (a, Fin t)"
    | "(lo, hi) \<in> set (zip (Fin t # map Fin ts @ [PosInf]) (map Fin ts @ [PosInf]))"
    by auto
  then show ?case
  proof cases
    case 1
    then show ?thesis using Cons.prems(2,3) by auto
  next
    case 2
    have "sorted ts" using Cons.prems(1) by simp
    moreover have "Fin t \<noteq> PosInf" by simp
    moreover have "\<And>v t'. Fin t = Fin v \<Longrightarrow> t' \<in> set ts \<Longrightarrow> v \<le> t'"
      using Cons.prems(1) by auto
    ultimately show ?thesis using Cons.IH [of "Fin t"] 2 by blast
  qed
qed

lemma length_differ [simp]: "length (differ w) = length w"
  by (induction w rule: differ.induct) auto

lemma weights_Inr:
  assumes "ps \<noteq> []" "sorted (map fst ps)" "key < length x"
  shows "\<exists>w. weights g rho x key ps = Inr w \<and> length w = Suc (length ps)"
proof -
  define ts where "ts = map fst ps"
  let ?axis = "[NegInf] @ map (\<lambda>item. Fin (fst item)) ps @ [PosInf]"
  have ax: "?axis = NegInf # map Fin ts @ [PosInf]" by (simp add: ts_def)
  have tl: "tl ?axis = map Fin ts @ [PosInf]" by (simp add: ts_def)
  have srt: "sorted ts" using assms(2) by (simp add: ts_def)
  have "\<forall>p \<in> set (rev (zip ?axis (tl ?axis))). \<exists>w. w_entry g rho (x ! key) p = Inr w"
  proof
    fix p assume "p \<in> set (rev (zip ?axis (tl ?axis)))"
    then have "p \<in> set (zip (NegInf # map Fin ts @ [PosInf]) (map Fin ts @ [PosInf]))"
      unfolding ax set_rev by simp
    moreover obtain lo hi where p: "p = (lo, hi)" by (cases p)
    ultimately have
      mem: "(lo, hi) \<in> set (zip (NegInf # map Fin ts @ [PosInf]) (map Fin ts @ [PosInf]))"
      by simp
    have "lo \<noteq> PosInf \<and> hi \<noteq> NegInf \<and> (\<forall>u v. lo = Fin u \<longrightarrow> hi = Fin v \<longrightarrow> u \<le> v)"
      by (rule axis_pairs_ok [OF srt _ _ mem]) simp_all
    then show "\<exists>w. w_entry g rho (x ! key) p = Inr w"
      unfolding p by (intro w_entry_Inr) blast+
  qed
  from map_err_Inr [OF this] obtain ws where
    ws: "map_err (w_entry g rho (x ! key)) (rev (zip ?axis (tl ?axis))) = Inr ws"
    and len: "length ws = length (rev (zip ?axis (tl ?axis)))"
    by blast
  have "length ws = Suc (length ps)" using len by simp
  then show ?thesis
    using assms(1,3) ws unfolding weights_def Let_def by simp
qed


lemma sort_key_Nil_iff: "sort_key f xs = [] \<longleftrightarrow> xs = []"
  using length_sort [of f xs] by (metis length_0_conv)

lemma init_pdict_shape:
  assumes "init jm eps ord gv rd pos neg pt vb nt = Inr a"
  shows "\<forall>(key, ps) \<in> set (pdict a). ps \<noteq> [] \<and> sorted (map fst ps)"
proof (rule init_InrD [OF assms])
  fix pd cs g
  assume fl: "features_loop (build_pdict 0 (node_list a) []) [] gv = (pd, cs, g)"
    and pd: "pdict a = pd"
  have ne: "\<forall>(k, ps) \<in> set (build_pdict 0 (node_list a) []). ps \<noteq> []"
    by (rule build_pdict_nonempty) simp
  have "pd = map (\<lambda>(k, ps). (k, sort_key fst ps)) (build_pdict 0 (node_list a) [])"
    using features_loop_pdict [of "build_pdict 0 (node_list a) []" "[]" gv] fl by simp
  then show ?thesis using ne pd by (auto simp: sorted_sort_key sort_key_Nil_iff)
qed

lemma init_B_var:
  assumes "init jm eps Linf gv rd pos neg pt vb nt = Inr a"
  shows "B_var a = Some B"
proof (rule init_InrD [OF assms])
  assume "B_var a = (if B_decl eps Linf = [] then None else Some B)"
  then show ?thesis by (simp add: B_decl_def)
qed

lemma attack_loop_Inr:
  assumes "\<forall>(key, ps) \<in> set pd. ps \<noteq> [] \<and> sorted (map fst ps) \<and> key < length x"
    and "B_var st = Some b"
  shows "\<exists>gm'. attack_loop st x pd gm = Inr gm'"
  using assms(1)
proof (induction pd arbitrary: gm)
  case Nil
  show ?case by simp
next
  case (Cons e pd)
  obtain key ps where e: "e = (key, ps)" by (cases e)
  have "ps \<noteq> []" "sorted (map fst ps)" "key < length x" using Cons.prems e by auto
  from weights_Inr [OF this, of "guard_val st" 1] obtain w where
    w: "weights (guard_val st) 1 x key ps = Inr w" by blast
  have "\<exists>gm'. attack_loop st x pd (linf_constr key w ps b gm) = Inr gm'"
    using Cons.IH Cons.prems by simp
  then show ?case using e w assms(2) by simp
qed

section \<open>Invariants of the tree compiler\<close>

text \<open>
  The dictionary \<^verbatim>\<open>node_check\<close> maps the rounded (feature, threshold) pair of every entry
  of \<^verbatim>\<open>node_list\<close> to its index and nothing else; the compiler only ever appends
  entries, occurrences and leaves.  \<open>occurrences\<close> lists the internal nodes of a tree that
  the traversal reaches through the \<^verbatim>\<open>yes\<close> and \<^verbatim>\<open>no\<close> links, each with its position
  (treeid, nodeid) and its rounded (feature, threshold) pair.
\<close>

definition key_of :: "node_wrapper \<Rightarrow> nat \<times> real" where
  "key_of nw = (attribute nw, threshold nw)"

definition check_inv :: "cstate \<Rightarrow> bool" where
  "check_inv st =
     ((\<forall>k j. c_node_check st k = Some j \<longrightarrow>
          j < length (c_node_list st) \<and> key_of (c_node_list st ! j) = k)
      \<and> (\<forall>j < length (c_node_list st).
            c_node_check st (key_of (c_node_list st ! j)) = Some j))"

definition extends :: "cstate \<Rightarrow> cstate \<Rightarrow> bool" where
  "extends st st' =
     (length (c_node_list st) \<le> length (c_node_list st')
      \<and> (\<forall>j < length (c_node_list st).
            key_of (c_node_list st' ! j) = key_of (c_node_list st ! j)
            \<and> set (leaves_lists (c_node_list st ! j))
                \<subseteq> set (leaves_lists (c_node_list st' ! j))
            \<and> set (node_pos (c_node_list st ! j))
                \<subseteq> set (node_pos (c_node_list st' ! j)))
      \<and> length (c_leaf_v_list st) \<le> length (c_leaf_v_list st')
      \<and> take (length (c_leaf_v_list st)) (c_leaf_v_list st') = c_leaf_v_list st)"

lemma check_inv_empty: "check_inv empty_cstate"
  by (simp add: check_inv_def empty_cstate_def)

lemma extends_refl: "extends st st"
  by (simp add: extends_def)

lemma extends_trans:
  assumes "extends s1 s2" "extends s2 s3"
  shows "extends s1 s3"
proof -
  have len: "length (c_node_list s1) \<le> length (c_node_list s2)"
    "length (c_node_list s2) \<le> length (c_node_list s3)"
    "length (c_leaf_v_list s1) \<le> length (c_leaf_v_list s2)"
    "length (c_leaf_v_list s2) \<le> length (c_leaf_v_list s3)"
    using assms by (simp_all add: extends_def)
  have tk: "take (length (c_leaf_v_list s1)) (c_leaf_v_list s3) = c_leaf_v_list s1"
  proof -
    have "take (length (c_leaf_v_list s1)) (take (length (c_leaf_v_list s2)) (c_leaf_v_list s3))
            = c_leaf_v_list s1"
      using assms by (simp add: extends_def)
    then show ?thesis using len by (simp add: min_def)
  qed
  have nodes: "key_of (c_node_list s3 ! j) = key_of (c_node_list s1 ! j)
            \<and> set (leaves_lists (c_node_list s1 ! j)) \<subseteq> set (leaves_lists (c_node_list s3 ! j))
            \<and> set (node_pos (c_node_list s1 ! j)) \<subseteq> set (node_pos (c_node_list s3 ! j))"
    if "j < length (c_node_list s1)" for j
  proof -
    have j2: "j < length (c_node_list s2)" using that len by simp
    have a: "key_of (c_node_list s2 ! j) = key_of (c_node_list s1 ! j)"
      "set (leaves_lists (c_node_list s1 ! j)) \<subseteq> set (leaves_lists (c_node_list s2 ! j))"
      "set (node_pos (c_node_list s1 ! j)) \<subseteq> set (node_pos (c_node_list s2 ! j))"
      using assms(1) that unfolding extends_def by blast+
    have b: "key_of (c_node_list s3 ! j) = key_of (c_node_list s2 ! j)"
      "set (leaves_lists (c_node_list s2 ! j)) \<subseteq> set (leaves_lists (c_node_list s3 ! j))"
      "set (node_pos (c_node_list s2 ! j)) \<subseteq> set (node_pos (c_node_list s3 ! j))"
      using assms(2) j2 unfolding extends_def by blast+
    show ?thesis using a b by auto
  qed
  show ?thesis
    unfolding extends_def using len tk nodes by auto
qed

lemma add_leaves_fields [simp]:
  "attribute (add_leaves tid nid ll rl r nw) = attribute nw"
  "threshold (add_leaves tid nid ll rl r nw) = threshold nw"
  "node_pos (add_leaves tid nid ll rl r nw) = node_pos nw @ [(tid, nid)]"
  "leaves_lists (add_leaves tid nid ll rl r nw) = leaves_lists nw @ [(ll, rl, r)]"
  by (simp_all add: add_leaves_def)

lemma new_node_wrapper_fields [simp]:
  "attribute (new_node_wrapper tid nid a t ll rl r) = a"
  "threshold (new_node_wrapper tid nid a t ll rl r) = t"
  "node_pos (new_node_wrapper tid nid a t ll rl r) = [(tid, nid)]"
  "leaves_lists (new_node_wrapper tid nid a t ll rl r) = [(ll, rl, r)]"
  by (simp_all add: new_node_wrapper_def)

lemma key_of_add_leaves [simp]: "key_of (add_leaves tid nid ll rl r nw) = key_of nw"
  by (simp add: key_of_def)

lemma key_of_new [simp]: "key_of (new_node_wrapper tid nid a t ll rl r) = (a, t)"
  by (simp add: key_of_def)

lemma map_key_of_update [simp]:
  "map key_of (nl[i := add_leaves tid nid ll rl r (nl ! i)]) = map key_of nl"
  by (cases "i < length nl") (simp_all add: map_update list_update_same_conv list_update_beyond)

lemma record_node_leaf_lists [simp]:
  "c_leaf_v_list (record_node tid nid a t ll rl r st) = c_leaf_v_list st"
  "c_leaf_pos_list (record_node tid nid a t ll rl r st) = c_leaf_pos_list st"
  by (simp_all add: record_node_def split: option.splits)

lemma check_inv_keys:
  "check_inv st =
     ((\<forall>k j. c_node_check st k = Some j \<longrightarrow>
          j < length (c_node_list st) \<and> map key_of (c_node_list st) ! j = k)
      \<and> (\<forall>j < length (c_node_list st).
            c_node_check st (map key_of (c_node_list st) ! j) = Some j))"
  unfolding check_inv_def by (metis nth_map)

lemma check_inv_cong:
  assumes "map key_of (c_node_list s') = map key_of (c_node_list s)"
    and "c_node_check s' = c_node_check s" and "check_inv s"
  shows "check_inv s'"
proof -
  have len: "length (c_node_list s') = length (c_node_list s)"
    using assms(1) by (metis length_map)
  show ?thesis using assms(3) unfolding check_inv_keys assms(1) assms(2) len .
qed

lemma record_node_check_inv:
  assumes "check_inv st"
  shows "check_inv (record_node tid nid a t ll rl r st)"
proof (cases "c_node_check st (a, t)")
  case None
  let ?nl = "c_node_list st" and ?nc = "c_node_check st"
  let ?st' = "st\<lparr>c_node_list := ?nl @ [new_node_wrapper tid nid a t ll rl r],
                  c_node_check := ?nc((a, t) \<mapsto> length ?nl)\<rparr>"
  have fresh: "key_of (?nl ! j) \<noteq> (a, t)" if "j < length ?nl" for j
    using assms that None unfolding check_inv_def by (metis option.distinct(1))
  have 1: "j < length (c_node_list ?st') \<and> key_of (c_node_list ?st' ! j) = k"
    if "c_node_check ?st' k = Some j" for k j
  proof (cases "k = (a, t)")
    case True
    then have "j = length ?nl" using that by simp
    then show ?thesis using True by simp
  next
    case False
    then have "?nc k = Some j" using that by simp
    then have "j < length ?nl \<and> key_of (?nl ! j) = k"
      using assms unfolding check_inv_def by blast
    then show ?thesis by (simp add: nth_append)
  qed
  have 2: "c_node_check ?st' (key_of (c_node_list ?st' ! j)) = Some j"
    if "j < length (c_node_list ?st')" for j
  proof (cases "j = length ?nl")
    case True
    then show ?thesis by simp
  next
    case False
    then have j: "j < length ?nl" using that by simp
    then have "?nc (key_of (?nl ! j)) = Some j"
      using assms unfolding check_inv_def by blast
    then show ?thesis using j fresh [OF j] by (simp add: nth_append)
  qed
  have "check_inv ?st'" unfolding check_inv_def using 1 2 by blast
  then show ?thesis using None by (simp add: record_node_def)
next
  case (Some i)
  let ?nl = "c_node_list st"
  let ?st' = "st\<lparr>c_node_list := ?nl[i := add_leaves tid nid ll rl r (?nl ! i)]\<rparr>"
  have "check_inv ?st'"
    by (rule check_inv_cong [OF _ _ assms]) simp_all
  then show ?thesis using Some by (simp add: record_node_def)
qed

lemma record_node_extends:
  assumes "check_inv st"
  shows "extends st (record_node tid nid a t ll rl r st)"
proof (cases "c_node_check st (a, t)")
  case None
  then have "record_node tid nid a t ll rl r st
      = st\<lparr>c_node_list := c_node_list st @ [new_node_wrapper tid nid a t ll rl r],
           c_node_check := (c_node_check st)((a, t) \<mapsto> length (c_node_list st))\<rparr>"
    by (simp add: record_node_def)
  then show ?thesis unfolding extends_def by (simp add: nth_append)
next
  case (Some i)
  have "key_of ((c_node_list st)[i := add_leaves tid nid ll rl r (c_node_list st ! i)] ! j)
          = key_of (c_node_list st ! j)
        \<and> set (leaves_lists (c_node_list st ! j))
            \<subseteq> set (leaves_lists
                ((c_node_list st)[i := add_leaves tid nid ll rl r (c_node_list st ! i)] ! j))
        \<and> set (node_pos (c_node_list st ! j))
            \<subseteq> set (node_pos
                ((c_node_list st)[i := add_leaves tid nid ll rl r (c_node_list st ! i)] ! j))"
    if "j < length (c_node_list st)" for j
    using that by (cases "j = i") auto
  moreover have "record_node tid nid a t ll rl r st
      = st\<lparr>c_node_list := (c_node_list st)[i := add_leaves tid nid ll rl r (c_node_list st ! i)]\<rparr>"
    using Some by (simp add: record_node_def)
  ultimately show ?thesis unfolding extends_def by simp
qed

lemma record_node_entry:
  assumes "check_inv st"
  shows "\<exists>j < length (c_node_list (record_node tid nid a t ll rl r st)).
           key_of (c_node_list (record_node tid nid a t ll rl r st) ! j) = (a, t)
           \<and> (ll, rl, r) \<in> set (leaves_lists (c_node_list (record_node tid nid a t ll rl r st) ! j))
           \<and> (tid, nid) \<in> set (node_pos (c_node_list (record_node tid nid a t ll rl r st) ! j))"
proof (cases "c_node_check st (a, t)")
  case None
  then have "c_node_list (record_node tid nid a t ll rl r st)
               = c_node_list st @ [new_node_wrapper tid nid a t ll rl r]"
    by (simp add: record_node_def)
  then show ?thesis
    by (intro exI [of _ "length (c_node_list st)"]) simp
next
  case (Some i)
  then have i: "i < length (c_node_list st)" "key_of (c_node_list st ! i) = (a, t)"
    using assms unfolding check_inv_def by blast+
  have "c_node_list (record_node tid nid a t ll rl r st)
          = (c_node_list st)[i := add_leaves tid nid ll rl r (c_node_list st ! i)]"
    using Some by (simp add: record_node_def)
  then show ?thesis using i
    by (intro exI [of _ i]) simp
qed

lemma record_node_keys:
  assumes "check_inv st"
  shows "set (map key_of (c_node_list (record_node tid nid a t ll rl r st)))
           = insert (a, t) (set (map key_of (c_node_list st)))"
proof (cases "c_node_check st (a, t)")
  case None
  then have "c_node_list (record_node tid nid a t ll rl r st)
               = c_node_list st @ [new_node_wrapper tid nid a t ll rl r]"
    by (simp add: record_node_def)
  then show ?thesis by simp
next
  case (Some i)
  then have i: "i < length (c_node_list st)" "key_of (c_node_list st ! i) = (a, t)"
    using assms unfolding check_inv_def by blast+
  have eq: "c_node_list (record_node tid nid a t ll rl r st)
          = (c_node_list st)[i := add_leaves tid nid ll rl r (c_node_list st ! i)]"
    using Some by (simp add: record_node_def)
  have "map key_of ((c_node_list st)[i := add_leaves tid nid ll rl r (c_node_list st ! i)])
          = map key_of (c_node_list st)"
    by simp
  moreover have "(a, t) \<in> set (map key_of (c_node_list st))"
    using i by (metis length_map nth_map nth_mem)
  ultimately show ?thesis unfolding eq by auto
qed


lemma upt_join: "a \<le> b \<Longrightarrow> b \<le> c \<Longrightarrow> [a ..< b] @ [b ..< c] = [a ..< c]"
  by (metis le_Suc_ex upt_add_eq_append)

lemma dfs_Split_InrE:
  assumes "dfs rd (Split nid f thr y n cs) tid r neg st = Inr (ls, st')"
  obtains lt rt ll st1 rl st2 where
    "find_child cs y = Some lt" "find_child cs n = Some rt"
    "dfs rd lt tid False neg st = Inr (ll, st1)"
    "dfs rd rt tid False neg st1 = Inr (rl, st2)"
    "ls = ll @ rl"
    "st' = record_node tid nid (attribute_of f) (py_round thr rd) ll rl r st2"
  using assms by (auto split: option.splits sum.splits prod.splits)

lemma dfs_inv:
  "dfs rd t tid r neg st = Inr (ls, st') \<Longrightarrow> check_inv st \<Longrightarrow>
     check_inv st' \<and> extends st st'
     \<and> ls = [length (c_leaf_v_list st) ..< length (c_leaf_v_list st')]
     \<and> length (c_leaf_v_list st) < length (c_leaf_v_list st')"
proof (induction rd t tid r neg st arbitrary: ls st' rule: dfs.induct)
  case (1 rd nid v treeid is_root neg st)
  let ?st' = "st\<lparr>c_leaf_v_list := c_leaf_v_list st @ [if neg then - v else v],
                  c_leaf_pos_list := c_leaf_pos_list st @ [(treeid, nid)]\<rparr>"
  have eq: "st' = ?st'" "ls = [length (c_leaf_v_list st)]" using 1(1) by simp_all
  have "check_inv ?st'" by (rule check_inv_cong [OF _ _ 1(2)]) simp_all
  moreover have "extends st ?st'" by (simp add: extends_def)
  ultimately show ?case unfolding eq by simp
next
  case (2 rd nid f thr y n cs treeid is_root neg st)
  from 2(3) obtain lt rt ll st1 rl st2 where
    fl: "find_child cs y = Some lt" and fr: "find_child cs n = Some rt"
    and dl: "dfs rd lt treeid False neg st = Inr (ll, st1)"
    and dr: "dfs rd rt treeid False neg st1 = Inr (rl, st2)"
    and ls: "ls = ll @ rl"
    and st': "st' = record_node treeid nid (attribute_of f) (py_round thr rd) ll rl is_root st2"
    by (rule dfs_Split_InrE)
  from 2(1) [OF fl fr dl 2(4)] have
    i1: "check_inv st1" and e1: "extends st st1"
    and l1: "ll = [length (c_leaf_v_list st) ..< length (c_leaf_v_list st1)]"
    and n1: "length (c_leaf_v_list st) < length (c_leaf_v_list st1)"
    by simp_all
  from 2(2) [OF fl fr dl refl dr i1] have
    i2: "check_inv st2" and e2: "extends st1 st2"
    and l2: "rl = [length (c_leaf_v_list st1) ..< length (c_leaf_v_list st2)]"
    and n2: "length (c_leaf_v_list st1) < length (c_leaf_v_list st2)"
    by simp_all
  have i3: "check_inv st'" unfolding st' by (rule record_node_check_inv [OF i2])
  have e3: "extends st2 st'" unfolding st' by (rule record_node_extends [OF i2])
  have e: "extends st st'" by (rule extends_trans [OF extends_trans [OF e1 e2] e3])
  have lv: "c_leaf_v_list st' = c_leaf_v_list st2" unfolding st' by simp
  have "ll @ rl = [length (c_leaf_v_list st) ..< length (c_leaf_v_list st2)]"
    unfolding l1 l2 using n1 n2 by (intro upt_join) simp_all
  then show ?case using i3 e lv ls n1 n2 by simp
qed


function occurrences :: "int \<Rightarrow> nat \<Rightarrow> tree \<Rightarrow> ((nat \<times> nat) \<times> (nat \<times> real)) list" where
  "occurrences rd treeid (Leaf nid v) = []"
| "occurrences rd treeid (Split nid f thr y n cs) =
     (case find_child cs y of
        None \<Rightarrow> []
      | Some left_subtree \<Rightarrow>
          (case find_child cs n of
             None \<Rightarrow> []
           | Some right_subtree \<Rightarrow>
               occurrences rd treeid left_subtree @ occurrences rd treeid right_subtree
               @ [((treeid, nid), (attribute_of f, py_round thr rd))]))"
  by pat_completeness auto
termination
  by (relation "measure (\<lambda>(rd, treeid, t). size t)") (auto dest: find_child_size)

definition ensemble_trees ::
  "tree list option \<Rightarrow> tree list option \<Rightarrow> tree list option \<Rightarrow> tree list" where
  "ensemble_trees jm pos neg =
     (if pos = None \<or> neg = None then (case jm of None \<Rightarrow> [] | Some ts \<Rightarrow> ts)
      else the pos @ the neg)"

fun trees_occurrences ::
  "int \<Rightarrow> nat \<Rightarrow> tree list \<Rightarrow> ((nat \<times> nat) \<times> (nat \<times> real)) list" where
  "trees_occurrences rd i [] = []"
| "trees_occurrences rd i (t # ts) = occurrences rd i t @ trees_occurrences rd (Suc i) ts"

definition all_occurrences ::
  "int \<Rightarrow> tree list option \<Rightarrow> tree list option \<Rightarrow> tree list option
     \<Rightarrow> ((nat \<times> nat) \<times> (nat \<times> real)) list" where
  "all_occurrences rd jm pos neg = trees_occurrences rd 0 (ensemble_trees jm pos neg)"

definition recorded :: "cstate \<Rightarrow> (nat \<times> nat) \<times> (nat \<times> real) \<Rightarrow> bool" where
  "recorded st oc =
     (\<exists>j < length (c_node_list st).
        key_of (c_node_list st ! j) = snd oc \<and> fst oc \<in> set (node_pos (c_node_list st ! j)))"

lemma recorded_extends:
  assumes "extends s s'" "recorded s oc"
  shows "recorded s' oc"
proof -
  from assms(2) obtain j where j: "j < length (c_node_list s)"
    "key_of (c_node_list s ! j) = snd oc" "fst oc \<in> set (node_pos (c_node_list s ! j))"
    unfolding recorded_def by blast
  have "j < length (c_node_list s')" "key_of (c_node_list s' ! j) = key_of (c_node_list s ! j)"
    "set (node_pos (c_node_list s ! j)) \<subseteq> set (node_pos (c_node_list s' ! j))"
    using assms(1) j(1) unfolding extends_def by auto
  then show ?thesis using j unfolding recorded_def by (intro exI [of _ j]) auto
qed

lemma dfs_occs:
  "dfs rd t tid r neg st = Inr (ls, st') \<Longrightarrow> check_inv st \<Longrightarrow>
     set (map key_of (c_node_list st'))
       = set (map key_of (c_node_list st)) \<union> snd ` set (occurrences rd tid t)
     \<and> (\<forall>oc \<in> set (occurrences rd tid t). recorded st' oc)"
proof (induction rd t tid r neg st arbitrary: ls st' rule: dfs.induct)
  case (1 rd nid v treeid is_root neg st)
  then show ?case by auto
next
  case (2 rd nid f thr y n cs treeid is_root neg st)
  from 2(3) obtain lt rt ll st1 rl st2 where
    fl: "find_child cs y = Some lt" and fr: "find_child cs n = Some rt"
    and dl: "dfs rd lt treeid False neg st = Inr (ll, st1)"
    and dr: "dfs rd rt treeid False neg st1 = Inr (rl, st2)"
    and st': "st' = record_node treeid nid (attribute_of f) (py_round thr rd) ll rl is_root st2"
    by (rule dfs_Split_InrE)
  let ?oc = "((treeid, nid), (attribute_of f, py_round thr rd))"
  have i1: "check_inv st1" using dfs_inv [OF dl 2(4)] by simp
  have v2: "check_inv st2" "extends st1 st2" using dfs_inv [OF dr i1] by simp_all
  have e3: "extends st2 st'" unfolding st' by (rule record_node_extends [OF v2(1)])
  from 2(1) [OF fl fr dl 2(4)] have
    k1: "set (map key_of (c_node_list st1))
           = set (map key_of (c_node_list st)) \<union> snd ` set (occurrences rd treeid lt)"
    and r1: "\<forall>oc \<in> set (occurrences rd treeid lt). recorded st1 oc"
    by simp_all
  from 2(2) [OF fl fr dl refl dr i1] have
    k2: "set (map key_of (c_node_list st2))
           = set (map key_of (c_node_list st1)) \<union> snd ` set (occurrences rd treeid rt)"
    and r2: "\<forall>oc \<in> set (occurrences rd treeid rt). recorded st2 oc"
    by simp_all
  have k3: "set (map key_of (c_node_list st'))
              = insert (attribute_of f, py_round thr rd) (set (map key_of (c_node_list st2)))"
    unfolding st' by (rule record_node_keys [OF v2(1)])
  have r3: "recorded st' ?oc"
    using record_node_entry [OF v2(1), of treeid nid "attribute_of f" "py_round thr rd" ll rl is_root]
    unfolding recorded_def st' by auto
  have occ: "occurrences rd treeid (Split nid f thr y n cs)
               = occurrences rd treeid lt @ occurrences rd treeid rt @ [?oc]"
    using fl fr by simp
  have keys: "set (map key_of (c_node_list st'))
       = set (map key_of (c_node_list st))
         \<union> snd ` set (occurrences rd treeid (Split nid f thr y n cs))"
    unfolding occ k3 k2 k1 by auto
  have rec: "recorded st' oc" if "oc \<in> set (occurrences rd treeid (Split nid f thr y n cs))" for oc
  proof -
    from that consider "oc \<in> set (occurrences rd treeid lt)"
      | "oc \<in> set (occurrences rd treeid rt)" | "oc = ?oc"
      unfolding occ by auto
    then show ?thesis
    proof cases
      case 1
      then have "recorded st1 oc" using r1 by blast
      then show ?thesis
        by (intro recorded_extends [OF e3] recorded_extends [OF v2(2)])
    next
      case 2
      then have "recorded st2 oc" using r2 by blast
      then show ?thesis by (rule recorded_extends [OF e3])
    next
      case 3
      then show ?thesis using r3 by simp
    qed
  qed
  show ?case using keys rec by blast
qed

lemma compile_trees_occs:
  "compile_trees rd neg i ts (st, lc) = Inr (st', lc') \<Longrightarrow> check_inv st \<Longrightarrow>
     check_inv st' \<and> extends st st'
     \<and> set (map key_of (c_node_list st'))
         = set (map key_of (c_node_list st))
           \<union> snd ` set (trees_occurrences rd i ts)
     \<and> (\<forall>oc \<in> set (trees_occurrences rd i ts).
           recorded st' oc)"
proof (induction ts arbitrary: i st lc)
  case Nil
  then show ?case by (simp add: extends_refl)
next
  case (Cons t ts)
  from Cons.prems(1) obtain ls st1 where
    d: "dfs rd t i True neg st = Inr (ls, st1)"
    and c: "compile_trees rd neg (Suc i) ts (st1, lc @ [length (c_leaf_v_list st1)])
              = Inr (st', lc')"
    by (auto split: sum.splits prod.splits)
  have v1: "check_inv st1" "extends st st1" using dfs_inv [OF d Cons.prems(2)] by simp_all
  have o1: "set (map key_of (c_node_list st1))
              = set (map key_of (c_node_list st)) \<union> snd ` set (occurrences rd i t)"
    "\<forall>oc \<in> set (occurrences rd i t). recorded st1 oc"
    using dfs_occs [OF d Cons.prems(2)] by simp_all
  from Cons.IH [OF c v1(1)] have
    v2: "check_inv st'" "extends st1 st'"
    and k2: "set (map key_of (c_node_list st'))
         = set (map key_of (c_node_list st1))
           \<union> snd ` set (trees_occurrences rd (Suc i) ts)"
    and r2: "\<forall>oc \<in> set (trees_occurrences rd (Suc i) ts).
           recorded st' oc"
    by simp_all
  have ext: "extends st st'" by (rule extends_trans [OF v1(2) v2(2)])
  have keys: "set (map key_of (c_node_list st'))
         = set (map key_of (c_node_list st))
           \<union> snd ` set (trees_occurrences rd i (t # ts))"
    unfolding k2 o1(1) by auto
  have rec: "recorded st' oc"
    if "oc \<in> set (trees_occurrences rd i (t # ts))" for oc
  proof -
    from that consider "oc \<in> set (occurrences rd i t)"
      | "oc \<in> set (trees_occurrences rd (Suc i) ts)"
      by auto
    then show ?thesis
    proof cases
      case 1
      then show ?thesis using o1(2) recorded_extends [OF v2(2)] by blast
    next
      case 2
      then show ?thesis using r2 by blast
    qed
  qed
  show ?case using v2(1) ext keys rec by blast
qed


lemma trees_occurrences_append:
  "trees_occurrences rd i (xs @ ys)
     = trees_occurrences rd i xs @ trees_occurrences rd (i + length xs) ys"
  by (induction xs arbitrary: i) simp_all

lemma compile_ensemble_occs:
  assumes "compile_ensemble rd jm pos neg = Inr (st, lc)"
  shows "check_inv st
     \<and> set (map key_of (c_node_list st)) = snd ` set (all_occurrences rd jm pos neg)
     \<and> (\<forall>oc \<in> set (all_occurrences rd jm pos neg). recorded st oc)"
proof (cases "pos = None \<or> neg = None")
  case True
  with assms obtain ts where jm: "jm = Some ts"
    and c: "compile_trees rd False 0 ts (empty_cstate, [0]) = Inr (st, lc)"
    by (auto simp: compile_ensemble_def split: option.splits sum.splits prod.splits if_splits)
  have occ: "all_occurrences rd jm pos neg = trees_occurrences rd 0 ts"
    using True jm by (simp add: all_occurrences_def ensemble_trees_def)
  have e: "set (map key_of (c_node_list empty_cstate)) = {}" by (simp add: empty_cstate_def)
  show ?thesis
    using compile_trees_occs [OF c check_inv_empty] unfolding occ e by simp
next
  case False
  then obtain ps ns where pn: "pos = Some ps" "neg = Some ns" by auto
  with assms obtain st1 lc1 where
    c1: "compile_trees rd False 0 ps (empty_cstate, [0]) = Inr (st1, lc1)"
    and c2: "compile_trees rd True (length ps) ns (st1, lc1) = Inr (st, lc)"
    by (auto simp: compile_ensemble_def split: option.splits sum.splits prod.splits if_splits)
  have occ: "all_occurrences rd jm pos neg
               = trees_occurrences rd 0 ps @ trees_occurrences rd (length ps) ns"
    using pn by (simp add: all_occurrences_def ensemble_trees_def trees_occurrences_append)
  have e: "set (map key_of (c_node_list empty_cstate)) = {}" by (simp add: empty_cstate_def)
  from compile_trees_occs [OF c1 check_inv_empty] have
    v1: "check_inv st1"
    and k1: "set (map key_of (c_node_list st1)) = snd ` set (trees_occurrences rd 0 ps)"
    and r1: "\<forall>oc \<in> set (trees_occurrences rd 0 ps). recorded st1 oc"
    unfolding e by simp_all
  from compile_trees_occs [OF c2 v1] have
    v2: "check_inv st" "extends st1 st"
    and k2: "set (map key_of (c_node_list st))
               = set (map key_of (c_node_list st1))
                 \<union> snd ` set (trees_occurrences rd (length ps) ns)"
    and r2: "\<forall>oc \<in> set (trees_occurrences rd (length ps) ns). recorded st oc"
    by simp_all
  have keys: "set (map key_of (c_node_list st)) = snd ` set (all_occurrences rd jm pos neg)"
    unfolding occ k2 k1 by auto
  have rec: "recorded st oc" if "oc \<in> set (all_occurrences rd jm pos neg)" for oc
  proof -
    from that consider "oc \<in> set (trees_occurrences rd 0 ps)"
      | "oc \<in> set (trees_occurrences rd (length ps) ns)"
      unfolding occ by auto
    then show ?thesis
    proof cases
      case 1
      then have "recorded st1 oc" using r1 by blast
      then show ?thesis by (rule recorded_extends [OF v2(2)])
    next
      case 2
      then show ?thesis using r2 by blast
    qed
  qed
  show ?thesis using v2(1) keys rec by blast
qed

lemma check_inv_distinct:
  assumes "check_inv st"
  shows "distinct (map key_of (c_node_list st))"
  unfolding distinct_conv_nth
proof (intro allI impI)
  fix i j
  assume i: "i < length (map key_of (c_node_list st))"
    and j: "j < length (map key_of (c_node_list st))" and ne: "i \<noteq> j"
  have "c_node_check st (key_of (c_node_list st ! i)) = Some i"
    "c_node_check st (key_of (c_node_list st ! j)) = Some j"
    using assms i j unfolding check_inv_def by simp_all
  then show "map key_of (c_node_list st) ! i \<noteq> map key_of (c_node_list st) ! j"
    using i j ne by auto
qed

lemma key_of_add_grb_var [simp]: "key_of (add_grb_var v ll nw) = key_of nw"
  by (simp add: key_of_def)

lemma map_key_of_attach_vars [simp]: "map key_of (attach_vars nl pl ll) = map key_of nl"
  by (simp add: list_eq_iff_nth_eq nth_attach_vars)

section \<open>Threshold gaps and the guard value\<close>

text \<open>
  \<open>gaps\<close> lists the differences of consecutive thresholds of a split list, \<open>min_gap\<close> is
  their minimum, and \<open>guard_shrink\<close> is the adjustment of the guard value for one
  feature: one third of the minimum gap when that gap is below twice the guard value.
\<close>

definition gaps :: "(real \<times> var) list \<Rightarrow> real list" where
  "gaps ps = map (\<lambda>(a, b). fst b - fst a) (zip ps (tl ps))"

definition min_gap :: "(real \<times> var) list \<Rightarrow> real" where
  "min_gap ps = Min (set (gaps ps))"

definition guard_shrink :: "real \<Rightarrow> real \<Rightarrow> real" where
  "guard_shrink mg g = (if mg < 2 * g then mg / 3 else g)"

lemma gaps_Cons2 [simp]: "gaps (a # b # r) = (fst b - fst a) # gaps (b # r)"
  by (simp add: gaps_def)

lemma gaps_short [simp]: "gaps [] = []" "gaps [a] = []"
  by (simp_all add: gaps_def)

lemma p_consis_snd: "snd (p_consis key i ps (cs, md)) = fold min (gaps ps) md"
  by (induction key i ps "(cs, md)" arbitrary: cs md rule: p_consis.induct)
     (simp_all add: min.commute)

lemma fold_min_Min: "gs \<noteq> [] \<Longrightarrow> fold min gs (md :: real) = min md (Min (set gs))"
proof (induction gs arbitrary: md)
  case Nil
  then show ?case by simp
next
  case (Cons g gs)
  show ?case
  proof (cases "gs = []")
    case True
    then show ?thesis by (simp add: min.commute)
  next
    case False
    then have "fold min gs (min g md) = min (min g md) (Min (set gs))" by (rule Cons.IH)
    moreover have "Min (set (g # gs)) = min g (Min (set gs))"
      using False by simp
    ultimately show ?thesis by (simp add: min.assoc min.left_commute min.commute)
  qed
qed

lemma gaps_nonempty: "1 < length ps \<Longrightarrow> gaps ps \<noteq> []"
proof -
  assume "1 < length ps"
  then obtain a b r where "ps = a # b # r"
    by (cases ps; cases "tl ps") auto
  then show ?thesis by simp
qed


lemma gaps_nonneg:
  "sorted (map fst ps) \<Longrightarrow> d \<in> set (gaps ps) \<Longrightarrow> 0 \<le> d"
proof (induction ps rule: induct_list012)
  case 1
  then show ?case by simp
next
  case (2 a)
  then show ?case by simp
next
  case (3 a b r)
  then show ?case by auto
qed

lemma gaps_pos:
  "sorted (map fst ps) \<Longrightarrow> distinct (map fst ps) \<Longrightarrow> d \<in> set (gaps ps) \<Longrightarrow> 0 < d"
proof (induction ps rule: induct_list012)
  case 1
  then show ?case by simp
next
  case (2 a)
  then show ?case by simp
next
  case (3 a b r)
  then show ?case by auto
qed

lemma min_gap_nonneg:
  assumes "1 < length ps" "sorted (map fst ps)"
  shows "0 \<le> min_gap ps"
proof -
  have "gaps ps \<noteq> []" by (rule gaps_nonempty [OF assms(1)])
  then have "min_gap ps \<in> set (gaps ps)" unfolding min_gap_def by (intro Min_in) simp_all
  then show ?thesis by (rule gaps_nonneg [OF assms(2)])
qed

lemma min_gap_pos:
  assumes "1 < length ps" "sorted (map fst ps)" "distinct (map fst ps)"
  shows "0 < min_gap ps"
proof -
  have "gaps ps \<noteq> []" by (rule gaps_nonempty [OF assms(1)])
  then have "min_gap ps \<in> set (gaps ps)" unfolding min_gap_def by (intro Min_in) simp_all
  then show ?thesis by (rule gaps_pos [OF assms(2,3)])
qed

lemma min_gap_le_nth:
  assumes "Suc i < length ps"
  shows "min_gap ps \<le> fst (ps ! Suc i) - fst (ps ! i)"
proof -
  have "i < length (zip ps (tl ps))" using assms by simp
  moreover have "zip ps (tl ps) ! i = (ps ! i, ps ! Suc i)"
    using assms by (simp add: nth_tl)
  ultimately have "fst (ps ! Suc i) - fst (ps ! i) \<in> set (gaps ps)"
    unfolding gaps_def by (metis (mono_tags, lifting) case_prod_conv length_map nth_map nth_mem)
  then show ?thesis unfolding min_gap_def by (intro Min_le) simp_all
qed

text \<open>One step of the loop over the features.\<close>

lemma feature_step_guard_short:
  "\<not> 1 < length ps \<Longrightarrow> snd (snd (feature_step key ps cs g)) = g"
  by (simp add: feature_step_def)

lemma feature_step_guard:
  assumes "1 < length ps"
  shows "snd (snd (feature_step key ps cs g))
           = guard_shrink (min 1000 (min_gap (sort_key fst ps))) g"
proof -
  have "1 < length (sort_key fst ps)" using assms by simp
  then have ne: "gaps (sort_key fst ps) \<noteq> []" by (rule gaps_nonempty)
  have "snd (p_consis key 0 (sort_key fst ps) (cs, 1000))
          = min 1000 (min_gap (sort_key fst ps))"
    unfolding p_consis_snd min_gap_def by (rule fold_min_Min [OF ne])
  then show ?thesis using assms by (simp add: feature_step_def Let_def guard_shrink_def)
qed

lemma guard_shrink_capped:
  assumes "g < 500"
  shows "guard_shrink (min 1000 mg) g = guard_shrink mg g"
  using assms by (auto simp: guard_shrink_def min_def)

lemma guard_shrink_le: "0 \<le> mg \<Longrightarrow> guard_shrink mg g \<le> g"
  by (auto simp: guard_shrink_def)

lemma guard_shrink_gap: "0 \<le> mg \<Longrightarrow> 2 * guard_shrink (min 1000 mg) g \<le> mg"
  by (auto simp: guard_shrink_def min_def)

lemma guard_shrink_pos: "0 < mg \<Longrightarrow> 0 < g \<Longrightarrow> 0 < guard_shrink (min 1000 mg) g"
  by (auto simp: guard_shrink_def min_def)


subsection \<open>The dictionary of splits per feature\<close>

definition pd_lookup :: "pdict_t \<Rightarrow> nat \<Rightarrow> (real \<times> var) list" where
  "pd_lookup pd k = (case map_of pd k of None \<Rightarrow> [] | Some ps \<Rightarrow> ps)"

lemma pd_lookup_simps [simp]:
  "pd_lookup [] k = []"
  "pd_lookup ((k', ps) # r) k = (if k = k' then ps else pd_lookup r k)"
  by (simp_all add: pd_lookup_def)

lemma pdict_add_keys:
  "set (map fst (pdict_add k e pd)) = insert k (set (map fst pd))"
  by (induction k e pd rule: pdict_add.induct) auto

lemma pdict_add_distinct:
  "distinct (map fst pd) \<Longrightarrow> distinct (map fst (pdict_add k e pd))"
proof (induction k e pd rule: pdict_add.induct)
  case (1 k e)
  then show ?case by simp
next
  case (2 k e k' es r)
  then show ?case using pdict_add_keys [of k e r] by auto
qed

lemma pdict_add_lookup:
  "pd_lookup (pdict_add k e pd) k'
     = (if k' = k then pd_lookup pd k @ [e] else pd_lookup pd k')"
  by (induction k e pd rule: pdict_add.induct) auto

lemma build_pdict_distinct:
  "distinct (map fst pd) \<Longrightarrow> distinct (map fst (build_pdict i nl pd))"
  by (induction i nl pd rule: build_pdict.induct) (simp_all add: pdict_add_distinct)

lemma build_pdict_lookup:
  "pd_lookup (build_pdict i nl pd) k
     = pd_lookup pd k
       @ map (\<lambda>(j, nw). (threshold nw, P j))
           (filter (\<lambda>(j, nw). attribute nw = k) (enumerate i nl))"
  by (induction i nl pd rule: build_pdict.induct) (simp_all add: pdict_add_lookup)

lemma pd_lookup_mem:
  "distinct (map fst pd) \<Longrightarrow> (k, ps) \<in> set pd \<Longrightarrow> pd_lookup pd k = ps"
  by (simp add: pd_lookup_def)

lemma map_snd_filter_enumerate:
  "map snd (filter (\<lambda>(j, x). Q x) (enumerate i xs)) = filter Q xs"
  by (induction xs arbitrary: i) simp_all

lemma split_list_thresholds:
  "map fst (map (\<lambda>(j, nw). (threshold nw, P j))
              (filter (\<lambda>(j, nw). attribute nw = k) (enumerate i nl)))
     = map threshold (filter (\<lambda>nw. attribute nw = k) nl)"
proof -
  have "map fst (map (\<lambda>(j, nw). (threshold nw, P j))
              (filter (\<lambda>(j, nw). attribute nw = k) (enumerate i nl)))
        = map threshold (map snd (filter (\<lambda>(j, nw). attribute nw = k) (enumerate i nl)))"
    by (simp add: case_prod_unfold comp_def)
  then show ?thesis by (simp only: map_snd_filter_enumerate)
qed

lemma distinct_thresholds_of_feature:
  assumes "distinct (map key_of nl)"
  shows "distinct (map threshold (filter (\<lambda>nw. attribute nw = k) nl))"
proof -
  let ?F = "filter (\<lambda>nw. attribute nw = k) nl"
  have d: "distinct (map key_of ?F)" by (rule distinct_map_filter [OF assms])
  have e: "map key_of ?F = map (Pair k) (map threshold ?F)"
    by (simp add: key_of_def)
  show ?thesis using d unfolding e distinct_map [of "Pair k"] by (rule conjunct1)
qed

lemma distinct_map_sort_key:
  "distinct (map f (sort_key f xs)) = distinct (map f xs)"
  by (simp add: distinct_map)


subsection \<open>The guard value through the loop over the features\<close>

lemma features_loop_Cons_E:
  assumes "features_loop ((key, ps) # rest) cs g = (pd', cs', g')"
  obtains cs1 g1 rest' where
    "feature_step key ps cs g = (sort_key fst ps, cs1, g1)"
    "features_loop rest cs1 g1 = (rest', cs', g')"
    "pd' = (key, sort_key fst ps) # rest'"
proof -
  obtain ps1 cs1 g1 where st: "feature_step key ps cs g = (ps1, cs1, g1)"
    by (cases "feature_step key ps cs g") auto
  have ps1: "ps1 = sort_key fst ps" using feature_step_fst [of key ps cs g] st by simp
  obtain rest' cs2 g2 where r: "features_loop rest cs1 g1 = (rest', cs2, g2)"
    by (cases "features_loop rest cs1 g1") auto
  have "pd' = (key, ps1) # rest'" "cs' = cs2" "g' = g2"
    using assms st r by simp_all
  then show thesis using that st r ps1 by simp
qed

lemma features_loop_guard:
  "features_loop pd cs g = (pd', cs', g') \<Longrightarrow>
     g' \<le> g
     \<and> (\<forall>(k, ps) \<in> set pd'. 1 < length ps \<longrightarrow> 2 * g' \<le> min_gap ps)
     \<and> (g < 500 \<longrightarrow>
          g' = fold guard_shrink
                 (map (\<lambda>(k, ps). min_gap ps) (filter (\<lambda>(k, ps). 1 < length ps) pd')) g)
     \<and> (0 < g \<and> (\<forall>(k, ps) \<in> set pd'. 1 < length ps \<longrightarrow> 0 < min_gap ps) \<longrightarrow> 0 < g')"
proof (induction pd arbitrary: cs g pd' cs' g')
  case Nil
  then show ?case by simp
next
  case (Cons e pd)
  obtain key ps where e: "e = (key, ps)" by (cases e)
  let ?ps = "sort_key fst ps"
  from Cons.prems obtain cs1 g1 rest' where
    st: "feature_step key ps cs g = (?ps, cs1, g1)"
    and r: "features_loop pd cs1 g1 = (rest', cs', g')"
    and pd': "pd' = (key, ?ps) # rest'"
    unfolding e by (rule features_loop_Cons_E)
  have srt: "sorted (map fst ?ps)" by (rule sorted_sort_key)
  from Cons.IH [OF r] have
    le: "g' \<le> g1"
    and gap: "\<forall>(k, ps) \<in> set rest'. 1 < length ps \<longrightarrow> 2 * g' \<le> min_gap ps"
    and fld: "g1 < 500 \<longrightarrow>
          g' = fold guard_shrink
                 (map (\<lambda>(k, ps). min_gap ps) (filter (\<lambda>(k, ps). 1 < length ps) rest')) g1"
    and pos: "0 < g1 \<and> (\<forall>(k, ps) \<in> set rest'. 1 < length ps \<longrightarrow> 0 < min_gap ps) \<longrightarrow> 0 < g'"
    by simp_all
  show ?case
  proof (cases "1 < length ps")
    case True
    then have len: "1 < length ?ps" by simp
    have mg: "0 \<le> min_gap ?ps" by (rule min_gap_nonneg [OF len srt])
    have g1: "g1 = guard_shrink (min 1000 (min_gap ?ps)) g"
      using feature_step_guard [OF True, of key cs g] st by simp
    have g1le: "g1 \<le> g" unfolding g1 using mg by (intro guard_shrink_le) simp
    have head: "2 * g' \<le> min_gap ?ps"
      using guard_shrink_gap [OF mg, of g] le unfolding g1 by simp
    have c1: "g' \<le> g" using le g1le by simp
    have c2: "\<forall>(k, ps) \<in> set pd'. 1 < length ps \<longrightarrow> 2 * g' \<le> min_gap ps"
      unfolding pd' using head gap by simp
    have c3: "g' = fold guard_shrink
                 (map (\<lambda>(k, ps). min_gap ps) (filter (\<lambda>(k, ps). 1 < length ps) pd')) g"
      if "g < 500"
    proof -
      have "g1 = guard_shrink (min_gap ?ps) g"
        unfolding g1 by (rule guard_shrink_capped [OF that])
      moreover have "g1 < 500" using g1le that by simp
      ultimately show ?thesis using fld len unfolding pd' by simp
    qed
    have c4: "0 < g'"
      if "0 < g" "\<forall>(k, ps) \<in> set pd'. 1 < length ps \<longrightarrow> 0 < min_gap ps"
    proof -
      have "0 < min_gap ?ps" using that(2) len unfolding pd' by simp
      then have "0 < g1" unfolding g1 using that(1) by (intro guard_shrink_pos)
      then show ?thesis using pos that(2) unfolding pd' by simp
    qed
    show ?thesis using c1 c2 c3 c4 by blast
  next
    case False
    then have len: "\<not> 1 < length ?ps" by simp
    have g1: "g1 = g" using feature_step_guard_short [OF False, of key cs g] st by simp
    have c2: "\<forall>(k, ps) \<in> set pd'. 1 < length ps \<longrightarrow> 2 * g' \<le> min_gap ps"
      unfolding pd' using len gap by simp
    have c3: "g < 500 \<longrightarrow> g' = fold guard_shrink
                 (map (\<lambda>(k, ps). min_gap ps) (filter (\<lambda>(k, ps). 1 < length ps) pd')) g"
      using fld len unfolding pd' g1 by simp
    have c4: "0 < g \<and> (\<forall>(k, ps) \<in> set pd'. 1 < length ps \<longrightarrow> 0 < min_gap ps) \<longrightarrow> 0 < g'"
      using pos unfolding pd' g1 by simp
    show ?thesis using le c2 c3 c4 unfolding g1 by blast
  qed
qed

lemma fold_guard_shrink_step:
  assumes "\<forall>mg \<in> set mgs. 0 \<le> mg" "n < length mgs"
  shows "fold guard_shrink (take (Suc n) mgs) g \<le> fold guard_shrink (take n mgs) g"
proof -
  have "take (Suc n) mgs = take n mgs @ [mgs ! n]"
    using assms(2) by (rule take_Suc_conv_app_nth)
  moreover have "0 \<le> mgs ! n" using assms by simp
  ultimately show ?thesis by (simp add: guard_shrink_le)
qed


subsection \<open>The split lists of a constructed attacker\<close>

lemma init_node_keys_distinct:
  assumes "init jm eps ord gv rd pos neg pt vb nt = Inr a"
  shows "distinct (map key_of (node_list a))"
proof (rule init_InrD [OF assms])
  fix st lc
  assume ce: "compile_ensemble rd jm pos neg = Inr (st, lc)"
    and nl: "node_list a = attach_vars (c_node_list st) (plist a) (llist a)"
  have "check_inv st" using compile_ensemble_occs [OF ce] by simp
  then show ?thesis unfolding nl by (simp add: check_inv_distinct)
qed

lemma init_pdict_lists:
  assumes "init jm eps ord gv rd pos neg pt vb nt = Inr a"
  shows "distinct (map fst (pdict a))"
    and "\<And>k ps. (k, ps) \<in> set (pdict a) \<Longrightarrow>
           sorted (map fst ps) \<and> distinct (map fst ps)
           \<and> set ps = set (map (\<lambda>(j, nw). (threshold nw, P j))
                         (filter (\<lambda>(j, nw). attribute nw = k) (enumerate 0 (node_list a))))"
    and "\<And>k. pd_lookup (pdict a) k
           = sort_key fst (map (\<lambda>(j, nw). (threshold nw, P j))
                         (filter (\<lambda>(j, nw). attribute nw = k) (enumerate 0 (node_list a))))"
proof -
  let ?pd0 = "build_pdict 0 (node_list a) []"
  let ?list = "\<lambda>k. map (\<lambda>(j, nw). (threshold nw, P j))
                   (filter (\<lambda>(j, nw). attribute nw = k) (enumerate 0 (node_list a)))"
  have pd: "pdict a = map (\<lambda>(k, ps). (k, sort_key fst ps)) ?pd0"
  proof (rule init_InrD [OF assms])
    fix pd cs g
    assume "features_loop (build_pdict 0 (node_list a) []) [] gv = (pd, cs, g)" "pdict a = pd"
    then show ?thesis using features_loop_pdict [of ?pd0 "[]" gv] by simp
  qed
  have d0: "distinct (map fst ?pd0)" by (rule build_pdict_distinct) simp
  have keys: "map fst (pdict a) = map fst ?pd0" unfolding pd by (simp add: case_prod_unfold comp_def)
  show d: "distinct (map fst (pdict a))" unfolding keys by (rule d0)
  have l0: "pd_lookup ?pd0 k = ?list k" for k by (simp add: build_pdict_lookup)
  have mem: "ps = sort_key fst (?list k)" if "(k, ps) \<in> set (pdict a)" for k ps
  proof -
    from that obtain ps0 where "(k, ps0) \<in> set ?pd0" "ps = sort_key fst ps0"
      unfolding pd by auto
    then show ?thesis using pd_lookup_mem [OF d0] l0 by simp
  qed
  show "sorted (map fst ps) \<and> distinct (map fst ps) \<and> set ps = set (?list k)"
    if "(k, ps) \<in> set (pdict a)" for k ps
  proof -
    have ps: "ps = sort_key fst (?list k)" by (rule mem [OF that])
    have "distinct (map fst (?list k))"
      unfolding split_list_thresholds
      by (rule distinct_thresholds_of_feature [OF init_node_keys_distinct [OF assms]])
    then show ?thesis unfolding ps by (simp add: sorted_sort_key distinct_map_sort_key)
  qed
  show "pd_lookup (pdict a) k = sort_key fst (?list k)" for k
  proof (cases "map_of (pdict a) k")
    case None
    then have "k \<notin> set (map fst ?pd0)" unfolding keys [symmetric] by (simp add: map_of_eq_None_iff)
    then have "map_of ?pd0 k = None" by (simp add: map_of_eq_None_iff)
    then have "?list k = []" using l0 [of k] by (simp add: pd_lookup_def)
    then show ?thesis using None by (simp add: pd_lookup_def)
  next
    case (Some ps)
    then have "(k, ps) \<in> set (pdict a)" by (rule map_of_SomeD)
    then show ?thesis using mem Some by (simp add: pd_lookup_def)
  qed
qed

lemma attack_guard_val:
  "attack slv a X label = Inr (r, a') \<Longrightarrow> guard_val a' = guard_val a"
  by (auto simp: attack_def Let_def split: sum.splits)

lemma optimal_guard_val:
  "optimal_adversarial_example slv a X label = Inr (r, a') \<Longrightarrow> guard_val a' = guard_val a"
  by (auto simp: optimal_adversarial_example_def Let_def
        split: sum.splits if_splits option.splits)

section \<open>Models built by the feasibility query\<close>

text \<open>
  The row \<^verbatim>\<open>linf_constr_{key}\<close> that the feasibility query adds for feature \<open>key\<close>:
  the weighted sum of the feature's split variables plus the constant weight is at most
  the distance variable.
\<close>

definition linf_row :: "nat \<Rightarrow> real list \<Rightarrow> (real \<times> var) list \<Rightarrow> var \<Rightarrow> constr" where
  "linf_row key w ps b =
     \<lparr>c_name = LinfConstr key,
      c_lhs = le_plus_const (LinExpr (butlast w) (map snd ps)) (last w),
      c_sense = LE, c_rhs = le_var b\<rparr>"

text \<open>A constraint name occurs at most once in a list of constraints.\<close>

definition named_once :: "cname \<Rightarrow> constr list \<Rightarrow> bool" where
  "named_once nm cs = (length (filter (\<lambda>c. c_name c = nm) cs) \<le> 1)"

text \<open>
  The states on which the feasibility query is studied: the distance variable exists,
  every feature has one nonempty sorted split list, and the model holds at most one
  constraint named \<^verbatim>\<open>mislabel\<close> and at most one named \<^verbatim>\<open>linf_constr_{key}\<close> per
  feature.  The constructor establishes this state for the L-infinity order
  (\<open>init_query_ready\<close>), and both queries preserve it, so it holds before every query of
  an attacker's life, not only the first.
\<close>

definition query_ready :: "attacker \<Rightarrow> bool" where
  "query_ready a =
     (B_var a = Some B
      \<and> distinct (map fst (pdict a))
      \<and> list_all (\<lambda>(key, ps). ps \<noteq> [] \<and> sorted (map fst ps)) (pdict a)
      \<and> named_once Mislabel (m_constrs (m a))
      \<and> list_all (\<lambda>(key, ps). named_once (LinfConstr key) (m_constrs (m a))) (pdict a))"

text \<open>
  The model the feasibility query hands to the solver, read off \<^verbatim>\<open>attack\<close>: the
  variables of the current model; its constraints without the previous \<^verbatim>\<open>mislabel\<close> and
  \<^verbatim>\<open>linf_constr_{key}\<close> rows, followed by the new mislabel row for \<open>label\<close> and one
  distance row per feature with the weights \<open>ws\<close> of the sample; and the constant
  objective 0.
\<close>

definition query_model :: "attacker \<Rightarrow> int \<Rightarrow> real list list \<Rightarrow> grb_model" where
  "query_model a label ws =
     \<lparr>m_vars = m_vars (m a),
      m_constrs =
        filter (\<lambda>c. c_name c \<noteq> Mislabel \<and> c_name c \<notin> LinfConstr ` fst ` set (pdict a))
          (m_constrs (m a))
        @ [mislabel_constr a label]
        @ map (\<lambda>((key, ps), w). linf_row key w ps B) (zip (pdict a) ws),
      m_objective = le_const 0\<rparr>"

lemma remove_first_filter:
  "named_once nm cs \<Longrightarrow> remove_first nm cs = filter (\<lambda>c. c_name c \<noteq> nm) cs"
proof (induction cs)
  case Nil
  then show ?case by simp
next
  case (Cons c cs)
  show ?case
  proof (cases "c_name c = nm")
    case True
    then have "filter (\<lambda>c. c_name c = nm) cs = []"
      using Cons.prems by (simp add: named_once_def)
    then have "filter (\<lambda>c. c_name c \<noteq> nm) cs = cs"
      by (simp add: filter_empty_conv filter_id_conv)
    then show ?thesis using True by simp
  next
    case False
    then have "named_once nm cs" using Cons.prems by (simp add: named_once_def)
    then show ?thesis using False Cons.IH by simp
  qed
qed

lemma linf_constr_constrs:
  "named_once (LinfConstr key) (m_constrs gm) \<Longrightarrow>
     m_constrs (linf_constr key w ps b gm)
       = filter (\<lambda>c. c_name c \<noteq> LinfConstr key) (m_constrs gm) @ [linf_row key w ps b]"
  by (simp add: linf_constr_def addConstr_def remove_by_name_def linf_row_def
      remove_first_filter)

lemma linf_constr_other [simp]:
  "m_vars (linf_constr key w ps b gm) = m_vars gm"
  "m_objective (linf_constr key w ps b gm) = m_objective gm"
  by (simp_all add: linf_constr_def addConstr_def remove_by_name_def)

lemma named_once_filter: "named_once nm cs \<Longrightarrow> named_once nm (filter Q cs)"
proof -
  assume a: "named_once nm cs"
  have e: "filter (\<lambda>c. c_name c = nm) (filter Q cs) = filter Q (filter (\<lambda>c. c_name c = nm) cs)"
    by (simp add: conj_commute)
  have "length (filter (\<lambda>c. c_name c = nm) (filter Q cs))
               \<le> length (filter (\<lambda>c. c_name c = nm) cs)"
    unfolding e by (rule length_filter_le)
  then show ?thesis using a by (simp add: named_once_def)
qed

lemma named_once_append_other:
  "named_once nm cs \<Longrightarrow> c_name c \<noteq> nm \<Longrightarrow> named_once nm (cs @ [c])"
  by (simp add: named_once_def)

lemma named_once_fresh:
  "named_once nm (filter (\<lambda>c. c_name c \<noteq> nm) cs @ [c])"
proof -
  have "filter (\<lambda>c. c_name c = nm) (filter (\<lambda>c. c_name c \<noteq> nm) cs) = []"
    by (simp add: filter_empty_conv)
  then show ?thesis by (simp add: named_once_def)
qed


lemma map_err_Cons_Inr:
  "f x = Inr y \<Longrightarrow> map_err f xs = Inr ys \<Longrightarrow> map_err f (x # xs) = Inr (y # ys)"
  by simp

lemma attack_loop_exact:
  assumes "B_var st = Some b"
  shows "distinct (map fst pd) \<Longrightarrow>
     \<forall>(key, ps) \<in> set pd. ps \<noteq> [] \<and> sorted (map fst ps) \<and> key < length x
        \<and> named_once (LinfConstr key) (m_constrs gm) \<Longrightarrow>
     \<exists>ws. map_err (\<lambda>(key, ps). weights (guard_val st) 1 x key ps) pd = Inr ws
        \<and> attack_loop st x pd gm
            = Inr (gm\<lparr>m_constrs :=
                        filter (\<lambda>c. c_name c \<notin> LinfConstr ` fst ` set pd) (m_constrs gm)
                        @ map (\<lambda>((key, ps), w). linf_row key w ps b) (zip pd ws)\<rparr>)"
proof (induction pd arbitrary: gm)
  case Nil
  show ?case by simp
next
  case (Cons e pd)
  obtain key ps where e: "e = (key, ps)" by (cases e)
  have hd: "ps \<noteq> []" "sorted (map fst ps)" "key < length x"
    "named_once (LinfConstr key) (m_constrs gm)"
    using Cons.prems(2) e by auto
  from weights_Inr [OF hd(1,2,3), of "guard_val st" 1] obtain w where
    w: "weights (guard_val st) 1 x key ps = Inr w" by blast
  let ?gm1 = "linf_constr key w ps b gm"
  have c1: "m_constrs ?gm1
              = filter (\<lambda>c. c_name c \<noteq> LinfConstr key) (m_constrs gm) @ [linf_row key w ps b]"
    by (rule linf_constr_constrs [OF hd(4)])
  have notin: "key \<notin> fst ` set pd" using Cons.prems(1) e by auto
  have d: "distinct (map fst pd)" using Cons.prems(1) by simp
  have rest: "\<forall>(k, qs) \<in> set pd. qs \<noteq> [] \<and> sorted (map fst qs) \<and> k < length x
        \<and> named_once (LinfConstr k) (m_constrs ?gm1)"
  proof (intro ballI, clarify)
    fix k qs assume m: "(k, qs) \<in> set pd"
    then have a: "qs \<noteq> []" "sorted (map fst qs)" "k < length x"
      "named_once (LinfConstr k) (m_constrs gm)"
      using Cons.prems(2) by auto
    have ne: "k \<noteq> key" using m notin by force
    have "named_once (LinfConstr k) (m_constrs ?gm1)"
      unfolding c1
      using ne by (intro named_once_append_other named_once_filter a(4)) (simp add: linf_row_def)
    then show "qs \<noteq> [] \<and> sorted (map fst qs) \<and> k < length x
        \<and> named_once (LinfConstr k) (m_constrs ?gm1)"
      using a by simp
  qed
  from Cons.IH [OF d rest] obtain ws where
    ws: "map_err (\<lambda>(key, ps). weights (guard_val st) 1 x key ps) pd = Inr ws"
    and l: "attack_loop st x pd ?gm1
            = Inr (?gm1\<lparr>m_constrs :=
                        filter (\<lambda>c. c_name c \<notin> LinfConstr ` fst ` set pd) (m_constrs ?gm1)
                        @ map (\<lambda>((key, ps), w). linf_row key w ps b) (zip pd ws)\<rparr>)"
    by blast
  have keep: "c_name (linf_row key w ps b) \<notin> LinfConstr ` fst ` set pd"
    using notin by (auto simp: linf_row_def)
  have f: "filter (\<lambda>c. c_name c \<notin> LinfConstr ` fst ` set pd) (m_constrs ?gm1)
             = filter (\<lambda>c. c_name c \<notin> LinfConstr ` fst ` set (e # pd)) (m_constrs gm)
               @ [linf_row key w ps b]"
    unfolding c1 using keep e by (auto intro: filter_cong)
  have me: "map_err (\<lambda>(key, ps). weights (guard_val st) 1 x key ps) (e # pd) = Inr (w # ws)"
    using w ws e by simp
  have "attack_loop st x (e # pd) gm
          = Inr (gm\<lparr>m_constrs :=
                        filter (\<lambda>c. c_name c \<notin> LinfConstr ` fst ` set (e # pd)) (m_constrs gm)
                        @ map (\<lambda>((key, ps), w). linf_row key w ps b) (zip (e # pd) (w # ws))\<rparr>)"
    using w assms l f e by (simp add: linf_constr_def addConstr_def remove_by_name_def)
  then show ?case using me by blast
qed


lemma replace_mislabel_constrs:
  "named_once Mislabel (m_constrs gm) \<Longrightarrow>
     m_constrs (replace_mislabel st label gm)
       = filter (\<lambda>c. c_name c \<noteq> Mislabel) (m_constrs gm) @ [mislabel_constr st label]"
  by (simp add: replace_mislabel_def Let_def addConstr_def remove_by_name_def
      remove_first_filter)

lemma replace_mislabel_other [simp]:
  "m_vars (replace_mislabel st label gm) = m_vars gm"
  "m_objective (replace_mislabel st label gm) = m_objective gm"
  by (simp_all add: replace_mislabel_def Let_def addConstr_def remove_by_name_def)

lemma c_name_mislabel_constr [simp]: "c_name (mislabel_constr st label) = Mislabel"
  by (simp add: mislabel_constr_def)

lemma c_name_linf_row [simp]: "c_name (linf_row key w ps b) = LinfConstr key"
  by (simp add: linf_row_def)

lemma distinct_filter_le_one:
  "distinct (map f xs) \<Longrightarrow> length (filter (\<lambda>x. f x = k) xs) \<le> 1"
proof (induction xs)
  case Nil
  then show ?case by simp
next
  case (Cons x xs)
  show ?case
  proof (cases "f x = k")
    case True
    have "f x \<notin> f ` set xs" using Cons.prems by simp
    have "f y \<noteq> k" if "y \<in> set xs" for y
    proof
      assume "f y = k"
      then have "f x = f y" using True by simp
      then show False using \<open>f x \<notin> f ` set xs\<close> that by (metis imageI)
    qed
    then have "\<forall>y \<in> set xs. f y \<noteq> k" by blast
    then have "filter (\<lambda>x. f x = k) xs = []" by (simp add: filter_empty_conv)
    then show ?thesis using True by simp
  next
    case False
    then show ?thesis using Cons by simp
  qed
qed

lemma linf_rows_named_once:
  assumes "distinct (map fst pd)"
  shows "named_once (LinfConstr key) (map (\<lambda>((key, ps), w). linf_row key w ps b) (zip pd ws))"
proof -
  have "map (fst \<circ> fst) (zip pd ws) = map fst (map fst (zip pd ws))" by simp
  also have "\<dots> = take (min (length pd) (length ws)) (map fst pd)"
    unfolding map_fst_zip_take by (simp add: take_map)
  finally have "map (fst \<circ> fst) (zip pd ws) = take (min (length pd) (length ws)) (map fst pd)" .
  then have d: "distinct (map (fst \<circ> fst) (zip pd ws))"
    using assms by (simp only: distinct_take)
  have "filter (\<lambda>c. c_name c = LinfConstr key)
          (map (\<lambda>((key, ps), w). linf_row key w ps b) (zip pd ws))
        = map (\<lambda>((key, ps), w). linf_row key w ps b)
            (filter (\<lambda>e. (fst \<circ> fst) e = key) (zip pd ws))"
    by (simp add: filter_map comp_def case_prod_unfold)
  then show ?thesis
    using distinct_filter_le_one [OF d, of key] by (simp add: named_once_def)
qed

lemma named_once_appendI:
  "named_once nm xs \<Longrightarrow> \<forall>c \<in> set ys. c_name c \<noteq> nm \<Longrightarrow> named_once nm (xs @ ys)"
  by (simp add: named_once_def filter_empty_conv [THEN iffD2])

lemma named_once_appendI2:
  "\<forall>c \<in> set xs. c_name c \<noteq> nm \<Longrightarrow> named_once nm ys \<Longrightarrow> named_once nm (xs @ ys)"
  by (simp add: named_once_def filter_empty_conv [THEN iffD2])

lemma attack_query_model:
  assumes "query_ready a" and "list_all (\<lambda>(key, ps). key < length X) (pdict a)"
  shows "\<exists>ws. map_err (\<lambda>(key, ps). weights (guard_val a) 1 X key ps) (pdict a) = Inr ws
           \<and> attack slv a X label
               = Inr (status (slv (query_model a label ws)) = 3, a\<lparr>m := query_model a label ws\<rparr>)
           \<and> query_ready (a\<lparr>m := query_model a label ws\<rparr>)"
proof -
  let ?cs = "m_constrs (m a)"
  let ?gm0 = "replace_mislabel a label (m a)"
  have B: "B_var a = Some B" and d: "distinct (map fst (pdict a))"
    and shape: "\<forall>(key, ps) \<in> set (pdict a). ps \<noteq> [] \<and> sorted (map fst ps)"
    and nm: "named_once Mislabel ?cs"
    and nl: "\<forall>(key, ps) \<in> set (pdict a). named_once (LinfConstr key) ?cs"
    and inx: "\<forall>(key, ps) \<in> set (pdict a). key < length X"
    using assms by (auto simp: query_ready_def list_all_iff)
  have c0: "m_constrs ?gm0 = filter (\<lambda>c. c_name c \<noteq> Mislabel) ?cs @ [mislabel_constr a label]"
    by (rule replace_mislabel_constrs [OF nm])
  have pre: "\<forall>(key, ps) \<in> set (pdict a). ps \<noteq> [] \<and> sorted (map fst ps) \<and> key < length X
        \<and> named_once (LinfConstr key) (m_constrs ?gm0)"
  proof (intro ballI, clarify)
    fix key ps assume mem: "(key, ps) \<in> set (pdict a)"
    have "named_once (LinfConstr key) (m_constrs ?gm0)"
      unfolding c0 using nl mem
      by (intro named_once_append_other named_once_filter) auto
    then show "ps \<noteq> [] \<and> sorted (map fst ps) \<and> key < length X
        \<and> named_once (LinfConstr key) (m_constrs ?gm0)"
      using shape inx mem by auto
  qed
  from attack_loop_exact [OF B d pre] obtain ws where
    ws: "map_err (\<lambda>(key, ps). weights (guard_val a) 1 X key ps) (pdict a) = Inr ws"
    and l: "attack_loop a X (pdict a) ?gm0
            = Inr (?gm0\<lparr>m_constrs :=
                filter (\<lambda>c. c_name c \<notin> LinfConstr ` fst ` set (pdict a)) (m_constrs ?gm0)
                @ map (\<lambda>((key, ps), w). linf_row key w ps B) (zip (pdict a) ws)\<rparr>)"
    by blast
  have f: "filter (\<lambda>c. c_name c \<notin> LinfConstr ` fst ` set (pdict a)) (m_constrs ?gm0)
             = filter (\<lambda>c. c_name c \<noteq> Mislabel \<and> c_name c \<notin> LinfConstr ` fst ` set (pdict a)) ?cs
               @ [mislabel_constr a label]"
    unfolding c0 by (auto intro: filter_cong)
  have qm: "(?gm0\<lparr>m_constrs :=
                filter (\<lambda>c. c_name c \<notin> LinfConstr ` fst ` set (pdict a)) (m_constrs ?gm0)
                @ map (\<lambda>((key, ps), w). linf_row key w ps B) (zip (pdict a) ws)\<rparr>)
              \<lparr>m_objective := le_const 0\<rparr>
            = query_model a label ws"
    unfolding f by (simp add: query_model_def)
  have att: "attack slv a X label
               = Inr (status (slv (query_model a label ws)) = 3, a\<lparr>m := query_model a label ws\<rparr>)"
    unfolding attack_def l by (simp add: Let_def qm)
  let ?old = "filter (\<lambda>c. c_name c \<noteq> Mislabel \<and> c_name c \<notin> LinfConstr ` fst ` set (pdict a)) ?cs"
  let ?rows = "map (\<lambda>((key, ps), w). linf_row key w ps B) (zip (pdict a) ws)"
  have rows_names: "\<forall>c \<in> set ?rows. c_name c \<noteq> Mislabel" by auto
  have n1: "named_once Mislabel (?old @ [mislabel_constr a label] @ ?rows)"
  proof -
    have one: "named_once Mislabel [mislabel_constr a label]" by (simp add: named_once_def)
    have r: "named_once Mislabel ([mislabel_constr a label] @ ?rows)"
      by (rule named_once_appendI [OF one rows_names])
    have o: "\<forall>c \<in> set ?old. c_name c \<noteq> Mislabel" by simp
    show ?thesis by (rule named_once_appendI2 [OF o r])
  qed
  have n2: "named_once (LinfConstr key) (?old @ [mislabel_constr a label] @ ?rows)"
    if "(key, ps) \<in> set (pdict a)" for key ps
  proof -
    have "key \<in> fst ` set (pdict a)" using that by force
    then have o: "\<forall>c \<in> set (?old @ [mislabel_constr a label]). c_name c \<noteq> LinfConstr key"
      by auto
    have "named_once (LinfConstr key) ((?old @ [mislabel_constr a label]) @ ?rows)"
      by (rule named_once_appendI2 [OF o linf_rows_named_once [OF d]])
    then show ?thesis by simp
  qed
  have "query_ready (a\<lparr>m := query_model a label ws\<rparr>)"
    using B d shape n1 n2 by (auto simp: query_ready_def query_model_def list_all_iff)
  then show ?thesis using ws att by blast
qed


section \<open>The constraints the constructor adds\<close>

text \<open>The ordering rows \<^verbatim>\<open>p_consis_attr{key}_{i}th\<close> of one sorted split list.\<close>

fun pconsis_rows :: "nat \<Rightarrow> nat \<Rightarrow> (real \<times> var) list \<Rightarrow> constr list" where
  "pconsis_rows key i (a # b # rest) =
     \<lparr>c_name = PConsis key i, c_lhs = le_var (snd a), c_sense = LE, c_rhs = le_var (snd b)\<rparr>
       # pconsis_rows key (Suc i) (b # rest)"
| "pconsis_rows key i ps = []"

lemma p_consis_fst: "fst (p_consis key i ps (cs, md)) = cs @ pconsis_rows key i ps"
  by (induction key i ps "(cs, md)" arbitrary: cs md rule: p_consis.induct) simp_all

lemma pconsis_rows_short: "\<not> 1 < length ps \<Longrightarrow> pconsis_rows key i ps = []"
proof (cases ps)
  case Nil
  then show ?thesis by simp
next
  case (Cons a r)
  assume "\<not> 1 < length ps"
  then have "r = []" using Cons by simp
  then show ?thesis using Cons by simp
qed

lemma feature_step_constrs:
  "fst (snd (feature_step key ps cs g)) = cs @ pconsis_rows key 0 (sort_key fst ps)"
proof (cases "1 < length ps")
  case True
  then show ?thesis by (simp add: feature_step_def Let_def p_consis_fst)
next
  case False
  then have "\<not> 1 < length (sort_key fst ps)" by simp
  then have "pconsis_rows key 0 (sort_key fst ps) = []" by (rule pconsis_rows_short)
  then show ?thesis using False by (simp add: feature_step_def)
qed

lemma features_loop_constrs:
  "features_loop pd cs g = (pd', cs', g') \<Longrightarrow>
     cs' = cs @ concat (map (\<lambda>(key, ps). pconsis_rows key 0 ps) pd')"
proof (induction pd arbitrary: cs g pd' cs' g')
  case Nil
  then show ?case by simp
next
  case (Cons e pd)
  obtain key ps where e: "e = (key, ps)" by (cases e)
  from Cons.prems obtain cs1 g1 rest' where
    st: "feature_step key ps cs g = (sort_key fst ps, cs1, g1)"
    and r: "features_loop pd cs1 g1 = (rest', cs', g')"
    and pd': "pd' = (key, sort_key fst ps) # rest'"
    unfolding e by (rule features_loop_Cons_E)
  have "cs1 = cs @ pconsis_rows key 0 (sort_key fst ps)"
    using feature_step_constrs [of key ps cs g] st by simp
  then show ?case using Cons.IH [OF r] pd' by simp
qed

lemma init_constrs:
  assumes "init jm eps ord gv rd pos neg pt vb nt = Inr a"
  shows "m_constrs (m a)
           = concat (map (\<lambda>(key, ps). pconsis_rows key 0 ps) (pdict a))
             @ leaf_sum_constrs (leaf_count a) (llist a)
             @ node_leaf_constrs (node_list a) (plist a) (llist a)"
proof (rule init_InrD [OF assms])
  fix pd cs g lc
  assume "features_loop (build_pdict 0 (node_list a) []) [] gv = (pd, cs, g)"
    and "pdict a = pd" and "leaf_count a = lc"
    and "m_constrs (m a) = cs @ leaf_sum_constrs lc (llist a)
                        @ node_leaf_constrs (node_list a) (plist a) (llist a)"
  then show ?thesis using features_loop_constrs [of "build_pdict 0 (node_list a) []" "[]" gv pd cs g]
    by simp
qed

lemma pconsis_rows_names: "c \<in> set (pconsis_rows key i ps) \<Longrightarrow> \<exists>j. c_name c = PConsis key j"
  by (induction key i ps rule: pconsis_rows.induct) auto

lemma init_constr_names:
  assumes "init jm eps ord gv rd pos neg pt vb nt = Inr a" and "c \<in> set (m_constrs (m a))"
  shows "c_name c \<noteq> Mislabel \<and> (\<forall>k. c_name c \<noteq> LinfConstr k)"
proof -
  from assms(2) consider
    "c \<in> set (concat (map (\<lambda>(key, ps). pconsis_rows key 0 ps) (pdict a)))"
    | "c \<in> set (leaf_sum_constrs (leaf_count a) (llist a))"
    | "c \<in> set (node_leaf_constrs (node_list a) (plist a) (llist a))"
    unfolding init_constrs [OF assms(1)] by auto
  then show ?thesis
  proof cases
    case 1
    then obtain key ps where "c \<in> set (pconsis_rows key 0 ps)" by auto
    then show ?thesis using pconsis_rows_names by fastforce
  next
    case 2
    then show ?thesis by (auto simp: leaf_sum_constrs_def)
  next
    case 3
    then show ?thesis
      by (auto simp: node_leaf_constrs_def node_leaf_pair_def Let_def split: if_splits)
  qed
qed

lemma init_query_ready:
  assumes "init jm eps Linf gv rd pos neg pt vb nt = Inr a"
  shows "query_ready a"
proof -
  have none: "filter (\<lambda>c. c_name c = nm) (m_constrs (m a)) = []"
    if "nm = Mislabel \<or> (\<exists>k. nm = LinfConstr k)" for nm
    using init_constr_names [OF assms] that by (auto simp: filter_empty_conv)
  have "named_once Mislabel (m_constrs (m a))"
    using none [of Mislabel] by (simp add: named_once_def)
  moreover have "named_once (LinfConstr k) (m_constrs (m a))" for k
    using none [of "LinfConstr k"] by (simp add: named_once_def)
  ultimately show ?thesis
    using init_B_var [OF assms] init_pdict_lists(1) [OF assms] init_pdict_shape [OF assms]
    by (auto simp: query_ready_def list_all_iff)
qed


lemma objective_loop_linf:
  "order st = Linf \<Longrightarrow>
     objective_loop st 1 x pd acc
       = (case attack_loop st x pd (oa_model acc) of
            Inl e \<Rightarrow> Inl e | Inr gm \<Rightarrow> Inr (acc\<lparr>oa_model := gm\<rparr>))"
proof (induction pd arbitrary: acc)
  case Nil
  then show ?case by simp
next
  case (Cons e pd)
  obtain key ps where e: "e = (key, ps)" by (cases e)
  show ?case unfolding e using Cons.prems Cons.IH [OF Cons.prems]
    by (simp split: sum.splits option.splits)
qed

lemma query_ready_cong:
  "B_var a' = B_var a \<Longrightarrow> pdict a' = pdict a \<Longrightarrow> m_constrs (m a') = m_constrs (m a) \<Longrightarrow>
     query_ready a' = query_ready a"
  by (simp add: query_ready_def)

lemma optimal_query_ready:
  assumes r: "query_ready a" and o: "order a = Linf"
    and k: "list_all (\<lambda>(key, ps). key < length x) (pdict a)"
    and res: "optimal_adversarial_example slv a x label = Inr (r, a')"
  shows "query_ready a'"
proof -
  from attack_query_model [OF r k, of slv label] obtain ws where
    att: "attack slv a x label
            = Inr (status (slv (query_model a label ws)) = 3, a\<lparr>m := query_model a label ws\<rparr>)"
    and r': "query_ready (a\<lparr>m := query_model a label ws\<rparr>)" by blast
  from att obtain gm where
    l: "attack_loop a x (pdict a) (replace_mislabel a label (m a)) = Inr gm"
    and st: "a\<lparr>m := gm\<lparr>m_objective := le_const 0\<rparr>\<rparr> = a\<lparr>m := query_model a label ws\<rparr>"
    by (auto simp: attack_def Let_def split: sum.splits)
  from arg_cong [OF st, of m]
  have gm: "gm\<lparr>m_objective := le_const 0\<rparr> = query_model a label ws" by simp
  from arg_cong [OF gm, of m_constrs]
  have cs: "m_constrs gm = m_constrs (query_model a label ws)" by simp
  have B: "B_var a = Some B" using r by (simp add: query_ready_def)
  let ?a1 = "a\<lparr>m := gm\<lparr>m_objective := le_var B\<rparr>, obj_coeff_list := obj_coeff_list a,
                 obj_var_list := obj_var_list a, obj_c := obj_c a\<rparr>"
  have q1: "query_ready ?a1"
    using r' by (simp add: query_ready_def cs)
  have ol: "objective_loop a (Suc 0) x (pdict a)
              \<lparr>oa_model = replace_mislabel a label (m a), oa_coeffs = obj_coeff_list a,
                 oa_vars = obj_var_list a, oa_c = obj_c a\<rparr>
            = Inr \<lparr>oa_model = gm, oa_coeffs = obj_coeff_list a,
                   oa_vars = obj_var_list a, oa_c = obj_c a\<rparr>"
    using objective_loop_linf [OF o, of x "pdict a"] l by simp
  from res have "a' = a \<or> a' = ?a1"
    unfolding optimal_adversarial_example_def
    by (auto simp: Let_def o B ol split: sum.splits if_splits option.splits)
  then show ?thesis using r q1 by auto
qed

section \<open>Leaves and coupling entries of a tree\<close>

text \<open>
  The shape of a tree as the claims speak of it, independent of the compiler's state.
  \<open>n_leaves\<close> counts the leaves below a node, following the \<^verbatim>\<open>yes\<close> and \<^verbatim>\<open>no\<close> links.
\<close>

function n_leaves :: "tree \<Rightarrow> nat" where
  "n_leaves (Leaf nid v) = 1"
| "n_leaves (Split nid f thr y n cs) =
     (case find_child cs y of
        None \<Rightarrow> 0
      | Some left_subtree \<Rightarrow>
          (case find_child cs n of
             None \<Rightarrow> 0
           | Some right_subtree \<Rightarrow> n_leaves left_subtree + n_leaves right_subtree))"
  by pat_completeness auto
termination
  by (relation "measure size") (auto dest: find_child_size)

text \<open>
  \<open>coupling_entries rd at_root n0 t\<close> lists, for every split node of the tree \<open>t\<close> whose
  first leaf has index \<open>n0\<close>, the rounded (feature, threshold) pair of the node, the
  indices of the leaves below its \<^verbatim>\<open>yes\<close> child, the indices of the leaves below its
  \<^verbatim>\<open>no\<close> child, and whether the node is the root of its tree: \<open>at_root\<close> holds for the
  top node only, every node below it is listed with \<open>False\<close>.  Leaves are numbered
  from left to right.
\<close>

function coupling_entries ::
  "int \<Rightarrow> bool \<Rightarrow> nat \<Rightarrow> tree \<Rightarrow> ((nat \<times> real) \<times> nat list \<times> nat list \<times> bool) list" where
  "coupling_entries rd at_root n0 (Leaf nid v) = []"
| "coupling_entries rd at_root n0 (Split nid f thr y n cs) =
     (case find_child cs y of
        None \<Rightarrow> []
      | Some left_subtree \<Rightarrow>
          (case find_child cs n of
             None \<Rightarrow> []
           | Some right_subtree \<Rightarrow>
               coupling_entries rd False n0 left_subtree
               @ coupling_entries rd False (n0 + n_leaves left_subtree) right_subtree
               @ [((attribute_of f, py_round thr rd),
                   [n0 ..< n0 + n_leaves left_subtree],
                   [n0 + n_leaves left_subtree
                      ..< n0 + n_leaves left_subtree + n_leaves right_subtree],
                   at_root)]))"
  by pat_completeness auto
termination
  by (relation "measure (\<lambda>(rd, at_root, n0, t). size t)") (auto dest: find_child_size)

text \<open>The entries of all trees of an ensemble; the leaves are numbered across the trees.\<close>

fun trees_entries ::
  "int \<Rightarrow> nat \<Rightarrow> tree list \<Rightarrow> ((nat \<times> real) \<times> nat list \<times> nat list \<times> bool) list" where
  "trees_entries rd n0 [] = []"
| "trees_entries rd n0 (t # ts) =
     coupling_entries rd True n0 t @ trees_entries rd (n0 + n_leaves t) ts"

definition all_entries ::
  "int \<Rightarrow> tree list option \<Rightarrow> tree list option \<Rightarrow> tree list option
     \<Rightarrow> ((nat \<times> real) \<times> nat list \<times> nat list \<times> bool) list" where
  "all_entries rd jm pos neg = trees_entries rd 0 (ensemble_trees jm pos neg)"

text \<open>An entry is stored when some unique split with its key lists its leaves and flag.\<close>

definition stored :: "cstate \<Rightarrow> (nat \<times> real) \<times> nat list \<times> nat list \<times> bool \<Rightarrow> bool" where
  "stored st e =
     (\<exists>j < length (c_node_list st).
        key_of (c_node_list st ! j) = fst e \<and> snd e \<in> set (leaves_lists (c_node_list st ! j)))"

lemma stored_extends:
  assumes "extends s s'" "stored s e"
  shows "stored s' e"
proof -
  from assms(2) obtain j where j: "j < length (c_node_list s)"
    "key_of (c_node_list s ! j) = fst e" "snd e \<in> set (leaves_lists (c_node_list s ! j))"
    unfolding stored_def by blast
  have "j < length (c_node_list s')" "key_of (c_node_list s' ! j) = key_of (c_node_list s ! j)"
    "set (leaves_lists (c_node_list s ! j)) \<subseteq> set (leaves_lists (c_node_list s' ! j))"
    using assms(1) j(1) unfolding extends_def by auto
  then show ?thesis using j unfolding stored_def by (intro exI [of _ j]) auto
qed

lemma dfs_n_leaves:
  "dfs rd t tid r neg st = Inr (ls, st') \<Longrightarrow>
     length (c_leaf_v_list st') = length (c_leaf_v_list st) + n_leaves t"
proof (induction rd t tid r neg st arbitrary: ls st' rule: dfs.induct)
  case (1 rd nid v treeid is_root neg st)
  then show ?case by auto
next
  case (2 rd nid f thr y n cs treeid is_root neg st)
  from 2(3) obtain lt rt ll st1 rl st2 where
    fl: "find_child cs y = Some lt" and fr: "find_child cs n = Some rt"
    and dl: "dfs rd lt treeid False neg st = Inr (ll, st1)"
    and dr: "dfs rd rt treeid False neg st1 = Inr (rl, st2)"
    and st': "st' = record_node treeid nid (attribute_of f) (py_round thr rd) ll rl is_root st2"
    by (rule dfs_Split_InrE)
  have "length (c_leaf_v_list st1) = length (c_leaf_v_list st) + n_leaves lt"
    by (rule 2(1) [OF fl fr dl])
  moreover have "length (c_leaf_v_list st2) = length (c_leaf_v_list st1) + n_leaves rt"
    by (rule 2(2) [OF fl fr dl refl dr])
  ultimately show ?case unfolding st' using fl fr by simp
qed

lemma dfs_entries:
  "dfs rd t tid r neg st = Inr (ls, st') \<Longrightarrow> check_inv st \<Longrightarrow>
     \<forall>e \<in> set (coupling_entries rd r (length (c_leaf_v_list st)) t). stored st' e"
proof (induction rd t tid r neg st arbitrary: ls st' rule: dfs.induct)
  case (1 rd nid v treeid is_root neg st)
  then show ?case by auto
next
  case (2 rd nid f thr y n cs treeid is_root neg st)
  from 2(3) obtain lt rt ll st1 rl st2 where
    fl: "find_child cs y = Some lt" and fr: "find_child cs n = Some rt"
    and dl: "dfs rd lt treeid False neg st = Inr (ll, st1)"
    and dr: "dfs rd rt treeid False neg st1 = Inr (rl, st2)"
    and st': "st' = record_node treeid nid (attribute_of f) (py_round thr rd) ll rl is_root st2"
    by (rule dfs_Split_InrE)
  let ?n0 = "length (c_leaf_v_list st)"
  let ?e = "((attribute_of f, py_round thr rd), [?n0 ..< ?n0 + n_leaves lt],
             [?n0 + n_leaves lt ..< ?n0 + n_leaves lt + n_leaves rt], is_root)"
  have v1: "check_inv st1" "ll = [?n0 ..< length (c_leaf_v_list st1)]"
    using dfs_inv [OF dl 2(4)] by simp_all
  have v2: "check_inv st2" "extends st1 st2"
    "rl = [length (c_leaf_v_list st1) ..< length (c_leaf_v_list st2)]"
    using dfs_inv [OF dr v1(1)] by simp_all
  have n1: "length (c_leaf_v_list st1) = ?n0 + n_leaves lt" by (rule dfs_n_leaves [OF dl])
  have n2: "length (c_leaf_v_list st2) = ?n0 + n_leaves lt + n_leaves rt"
    using dfs_n_leaves [OF dr] n1 by simp
  have ll: "ll = [?n0 ..< ?n0 + n_leaves lt]" using v1(2) n1 by simp
  have rl: "rl = [?n0 + n_leaves lt ..< ?n0 + n_leaves lt + n_leaves rt]"
    using v2(3) n1 n2 by simp
  have e3: "extends st2 st'" unfolding st' by (rule record_node_extends [OF v2(1)])
  have r1: "\<forall>e \<in> set (coupling_entries rd False ?n0 lt). stored st1 e"
    by (rule 2(1) [OF fl fr dl 2(4)])
  have r2: "\<forall>e \<in> set (coupling_entries rd False (?n0 + n_leaves lt) rt). stored st2 e"
    using 2(2) [OF fl fr dl refl dr v1(1)] n1 by simp
  have r3: "stored st' ?e"
    using record_node_entry [OF v2(1), of treeid nid "attribute_of f" "py_round thr rd" ll rl is_root]
    unfolding stored_def st' ll rl by auto
  have ent: "coupling_entries rd is_root ?n0 (Split nid f thr y n cs)
               = coupling_entries rd False ?n0 lt
                 @ coupling_entries rd False (?n0 + n_leaves lt) rt @ [?e]"
    using fl fr by simp
  show ?case
  proof
    fix e assume "e \<in> set (coupling_entries rd is_root ?n0 (Split nid f thr y n cs))"
    then consider "e \<in> set (coupling_entries rd False ?n0 lt)"
      | "e \<in> set (coupling_entries rd False (?n0 + n_leaves lt) rt)" | "e = ?e"
      unfolding ent by auto
    then show "stored st' e"
    proof cases
      case 1
      then have "stored st1 e" using r1 by blast
      then show ?thesis by (intro stored_extends [OF e3] stored_extends [OF v2(2)])
    next
      case 2
      then have "stored st2 e" using r2 by blast
      then show ?thesis by (rule stored_extends [OF e3])
    next
      case 3
      then show ?thesis using r3 by simp
    qed
  qed
qed

lemma coupling_entries_bound:
  "(key, left, right, flag) \<in> set (coupling_entries rd at_root n0 t) \<Longrightarrow>
     set left \<union> set right \<subseteq> {n0 ..< n0 + n_leaves t}"
proof (induction rd at_root n0 t rule: coupling_entries.induct)
  case (1 rd at_root n0 nid v)
  then show ?case by simp
next
  case (2 rd at_root n0 nid f thr y n cs)
  from 2(3) obtain lt rt where fl: "find_child cs y = Some lt" and fr: "find_child cs n = Some rt"
    by (cases "find_child cs y"; cases "find_child cs n") auto
  from 2(3) consider "(key, left, right, flag) \<in> set (coupling_entries rd False n0 lt)"
    | "(key, left, right, flag) \<in> set (coupling_entries rd False (n0 + n_leaves lt) rt)"
    | "left = [n0 ..< n0 + n_leaves lt]"
      "right = [n0 + n_leaves lt ..< n0 + n_leaves lt + n_leaves rt]"
    using fl fr by auto
  then show ?case
  proof cases
    case 1
    from 2(1) [OF fl fr 1] show ?thesis using fl fr by auto
  next
    case 2
    from "2.IH"(2) [OF fl fr 2] show ?thesis using fl fr by auto
  next
    case 3
    then show ?thesis using fl fr by auto
  qed
qed

lemma compile_trees_entries:
  "compile_trees rd neg i ts (st, lc) = Inr (st', lc') \<Longrightarrow> check_inv st \<Longrightarrow>
     (\<forall>e \<in> set (trees_entries rd (length (c_leaf_v_list st)) ts). stored st' e)
     \<and> length (c_leaf_v_list st') = length (c_leaf_v_list st) + sum_list (map n_leaves ts)"
proof (induction ts arbitrary: i st lc)
  case Nil
  then show ?case by simp
next
  case (Cons t ts)
  from Cons.prems(1) obtain ls st1 where
    d: "dfs rd t i True neg st = Inr (ls, st1)"
    and c: "compile_trees rd neg (Suc i) ts (st1, lc @ [length (c_leaf_v_list st1)])
              = Inr (st', lc')"
    by (auto split: sum.splits prod.splits)
  have v1: "check_inv st1" using dfs_inv [OF d Cons.prems(2)] by simp
  have n1: "length (c_leaf_v_list st1) = length (c_leaf_v_list st) + n_leaves t"
    by (rule dfs_n_leaves [OF d])
  have r1: "\<forall>e \<in> set (coupling_entries rd True (length (c_leaf_v_list st)) t). stored st1 e"
    by (rule dfs_entries [OF d Cons.prems(2)])
  have ext: "extends st1 st'" using compile_trees_occs [OF c v1] by simp
  from Cons.IH [OF c v1] have
    r2: "\<forall>e \<in> set (trees_entries rd (length (c_leaf_v_list st) + n_leaves t) ts). stored st' e"
    and n2: "length (c_leaf_v_list st') = length (c_leaf_v_list st1) + sum_list (map n_leaves ts)"
    unfolding n1 by simp_all
  have "stored st' e" if "e \<in> set (trees_entries rd (length (c_leaf_v_list st)) (t # ts))" for e
  proof -
    from that consider "e \<in> set (coupling_entries rd True (length (c_leaf_v_list st)) t)"
      | "e \<in> set (trees_entries rd (length (c_leaf_v_list st) + n_leaves t) ts)"
      by auto
    then show ?thesis
    proof cases
      case 1
      then show ?thesis using r1 stored_extends [OF ext] by blast
    next
      case 2
      then show ?thesis using r2 by blast
    qed
  qed
  then show ?case using n1 n2 by simp
qed

lemma trees_entries_append:
  "trees_entries rd n0 (xs @ ys)
     = trees_entries rd n0 xs @ trees_entries rd (n0 + sum_list (map n_leaves xs)) ys"
  by (induction xs arbitrary: n0) (simp_all add: add.assoc)

lemma trees_entries_bound:
  "(key, left, right, flag) \<in> set (trees_entries rd n0 ts) \<Longrightarrow>
     set left \<union> set right \<subseteq> {n0 ..< n0 + sum_list (map n_leaves ts)}"
proof (induction ts arbitrary: n0)
  case Nil
  then show ?case by simp
next
  case (Cons t ts)
  from Cons.prems consider "(key, left, right, flag) \<in> set (coupling_entries rd True n0 t)"
    | "(key, left, right, flag) \<in> set (trees_entries rd (n0 + n_leaves t) ts)"
    by auto
  then show ?case
  proof cases
    case 1
    from coupling_entries_bound [OF 1] show ?thesis by auto
  next
    case 2
    from Cons.IH [OF 2] show ?thesis by auto
  qed
qed

lemma compile_ensemble_entries:
  assumes "compile_ensemble rd jm pos neg = Inr (st, lc)"
  shows "(\<forall>e \<in> set (all_entries rd jm pos neg). stored st e)
     \<and> length (c_leaf_v_list st) = sum_list (map n_leaves (ensemble_trees jm pos neg))"
proof (cases "pos = None \<or> neg = None")
  case True
  with assms obtain ts where jm: "jm = Some ts"
    and c: "compile_trees rd False 0 ts (empty_cstate, [0]) = Inr (st, lc)"
    by (auto simp: compile_ensemble_def split: option.splits sum.splits prod.splits if_splits)
  have ent: "all_entries rd jm pos neg = trees_entries rd 0 ts" "ensemble_trees jm pos neg = ts"
    using True jm by (simp_all add: all_entries_def ensemble_trees_def)
  have e: "length (c_leaf_v_list empty_cstate) = 0" by (simp add: empty_cstate_def)
  show ?thesis
    using compile_trees_entries [OF c check_inv_empty] unfolding ent e by simp
next
  case False
  then obtain ps ns where pn: "pos = Some ps" "neg = Some ns" by auto
  with assms obtain st1 lc1 where
    c1: "compile_trees rd False 0 ps (empty_cstate, [0]) = Inr (st1, lc1)"
    and c2: "compile_trees rd True (length ps) ns (st1, lc1) = Inr (st, lc)"
    by (auto simp: compile_ensemble_def split: option.splits sum.splits prod.splits if_splits)
  have tr: "ensemble_trees jm pos neg = ps @ ns" using pn by (simp add: ensemble_trees_def)
  have ent: "all_entries rd jm pos neg
               = trees_entries rd 0 ps @ trees_entries rd (sum_list (map n_leaves ps)) ns"
    unfolding all_entries_def tr by (simp add: trees_entries_append)
  have e: "length (c_leaf_v_list empty_cstate) = 0" by (simp add: empty_cstate_def)
  have v1: "check_inv st1" using compile_trees_occs [OF c1 check_inv_empty] by simp
  from compile_trees_entries [OF c1 check_inv_empty] have
    r1: "\<forall>e \<in> set (trees_entries rd 0 ps). stored st1 e"
    and n1: "length (c_leaf_v_list st1) = sum_list (map n_leaves ps)"
    unfolding e by simp_all
  have ext: "extends st1 st" using compile_trees_occs [OF c2 v1] by simp
  from compile_trees_entries [OF c2 v1] have
    r2: "\<forall>e \<in> set (trees_entries rd (sum_list (map n_leaves ps)) ns). stored st e"
    and n2: "length (c_leaf_v_list st) = sum_list (map n_leaves ps) + sum_list (map n_leaves ns)"
    unfolding n1 by simp_all
  have "stored st e" if "e \<in> set (all_entries rd jm pos neg)" for e
  proof -
    from that consider "e \<in> set (trees_entries rd 0 ps)"
      | "e \<in> set (trees_entries rd (sum_list (map n_leaves ps)) ns)"
      unfolding ent by auto
    then show ?thesis
    proof cases
      case 1
      then have "stored st1 e" using r1 by blast
      then show ?thesis by (rule stored_extends [OF ext])
    next
      case 2
      then show ?thesis using r2 by blast
    qed
  qed
  then show ?thesis using n2 unfolding tr by simp
qed

lemma LinExpr_ones:
  assumes "\<forall>i \<in> set is. i < n"
  shows "LinExpr (replicate (length (map (\<lambda>i. map L [0 ..< n] ! i) is)) 1)
           (map (\<lambda>i. map L [0 ..< n] ! i) is) = (map (\<lambda>i. (1, L i)) is, 0)"
proof -
  have m: "map (\<lambda>i. map L [0 ..< n] ! i) is = map L is" using assms by simp
  have z: "zip (replicate (length is) (1 :: real)) (map L is) = map (\<lambda>i. (1, L i)) is"
    by (induction "is") simp_all
  show ?thesis unfolding m LinExpr_def using z by simp
qed

lemma init_coupling_rows:
  assumes "init jm eps ord gv rd pos neg pt vb nt = Inr a"
    and "(key, left, right, is_root) \<in> set (all_entries rd jm pos neg)"
  shows "\<exists>j k. j < length (node_list a) \<and> k < length (leaves_lists (node_list a ! j))
     \<and> (attribute (node_list a ! j), threshold (node_list a ! j)) = key
     \<and> leaves_lists (node_list a ! j) ! k = (left, right, is_root)
     \<and> p_grb_var (node_list a ! j) = Some (P j)
     \<and> set (node_leaf_pair (llist a) (P j) j k (left, right, is_root)) \<subseteq> set (m_constrs (m a))
     \<and> LinExpr (replicate (length (map (\<lambda>i. llist a ! i) left)) 1) (map (\<lambda>i. llist a ! i) left)
         = (map (\<lambda>i. (1, L i)) left, 0)
     \<and> LinExpr (replicate (length (map (\<lambda>i. llist a ! i) right)) 1) (map (\<lambda>i. llist a ! i) right)
         = (map (\<lambda>i. (1, L i)) right, 0)"
proof (rule init_InrD [OF assms(1)])
  fix st lc cs
  assume ce: "compile_ensemble rd jm pos neg = Inr (st, lc)"
    and nl: "node_list a = attach_vars (c_node_list st) (plist a) (llist a)"
    and pl: "plist a = map P [0 ..< length (c_node_list st)]"
    and ll: "llist a = map L [0 ..< length (c_leaf_v_list st)]"
    and mc: "m_constrs (m a) = cs @ leaf_sum_constrs lc (llist a)
                        @ node_leaf_constrs (node_list a) (plist a) (llist a)"
  from compile_ensemble_entries [OF ce] assms(2) have
    sto: "stored st (key, left, right, is_root)"
    and len: "length (c_leaf_v_list st) = sum_list (map n_leaves (ensemble_trees jm pos neg))"
    by blast+
  from sto obtain j where j: "j < length (c_node_list st)"
    and kj: "key_of (c_node_list st ! j) = key"
    and mem: "(left, right, is_root) \<in> set (leaves_lists (c_node_list st ! j))"
    unfolding stored_def by auto
  from mem obtain k where k: "k < length (leaves_lists (c_node_list st ! j))"
    and ek: "leaves_lists (c_node_list st ! j) ! k = (left, right, is_root)"
    unfolding in_set_conv_nth by blast
  have pj: "plist a ! j = P j" using j pl by simp
  have nj: "node_list a ! j = add_grb_var (P j) (llist a) (c_node_list st ! j)"
    unfolding nl using j pj by (simp add: nth_attach_vars)
  have j': "j < length (node_list a)" using j nl by simp
  have k': "k < length (leaves_lists (node_list a ! j))" using k nj by simp
  have ek': "leaves_lists (node_list a ! j) ! k = (left, right, is_root)" using ek nj by simp
  have key: "(attribute (node_list a ! j), threshold (node_list a ! j)) = key"
    using kj nj by (simp add: key_of_def)
  have var: "p_grb_var (node_list a ! j) = Some (P j)" using nj by simp
  have sub: "set (node_leaf_pair (llist a) (P j) j k (left, right, is_root))
              \<subseteq> set (m_constrs (m a))"
    using node_leaf_pair_subset [OF j' k', of "llist a" "plist a"] ek' pj mc by auto
  have bnd: "set left \<union> set right \<subseteq> {0 ..< length (c_leaf_v_list st)}"
    using trees_entries_bound [of key left right is_root rd 0 "ensemble_trees jm pos neg"]
      assms(2) len by (simp add: all_entries_def)
  have l: "LinExpr (replicate (length (map (\<lambda>i. llist a ! i) left)) 1) (map (\<lambda>i. llist a ! i) left)
         = (map (\<lambda>i. (1, L i)) left, 0)"
    unfolding ll by (rule LinExpr_ones) (use bnd in auto)
  have r: "LinExpr (replicate (length (map (\<lambda>i. llist a ! i) right)) 1) (map (\<lambda>i. llist a ! i) right)
         = (map (\<lambda>i. (1, L i)) right, 0)"
    unfolding ll by (rule LinExpr_ones) (use bnd in auto)
  show ?thesis using j' k' key ek' var sub l r by blast
qed

text \<open>Conversely, every stored occurrence has its pair of rows in the model.\<close>

lemma stored_entry_rows:
  assumes "init jm eps ord gv rd pos neg pt vb nt = Inr a"
    and "j < length (node_list a)"
    and "k < length (leaves_lists (node_list a ! j))"
    and "leaves_lists (node_list a ! j) ! k = (left, right, is_root)"
  shows "p_grb_var (node_list a ! j) = Some (P j) \<and>
    (let sum_left = LinExpr (replicate (length left) 1) (map (\<lambda>i. llist a ! i) left);
         sum_right = LinExpr (replicate (length right) 1) (map (\<lambda>i. llist a ! i) right)
     in if is_root then
          \<lparr>c_name = RootLeft j k, c_lhs = le_minus_var sum_left (P j), c_sense = EQ,
           c_rhs = le_const 0\<rparr> \<in> set (m_constrs (m a)) \<and>
          \<lparr>c_name = RootRight j k, c_lhs = le_plus_var sum_right (P j), c_sense = EQ,
           c_rhs = le_const 1\<rparr> \<in> set (m_constrs (m a))
        else
          \<lparr>c_name = NodeLeft j k, c_lhs = le_minus_var sum_left (P j), c_sense = LE,
           c_rhs = le_const 0\<rparr> \<in> set (m_constrs (m a)) \<and>
          \<lparr>c_name = NodeRight j k, c_lhs = le_plus_var sum_right (P j), c_sense = LE,
           c_rhs = le_const 1\<rparr> \<in> set (m_constrs (m a)))"
proof (rule init_InrD [OF assms(1)])
  fix st lc cs
  assume nl: "node_list a = attach_vars (c_node_list st) (plist a) (llist a)"
    and pl: "plist a = map P [0 ..< length (c_node_list st)]"
    and mc: "m_constrs (m a) = cs @ leaf_sum_constrs lc (llist a)
                        @ node_leaf_constrs (node_list a) (plist a) (llist a)"
  have j: "j < length (c_node_list st)" using assms(2) nl by simp
  have pj: "plist a ! j = P j" using j pl by simp
  have var: "p_grb_var (node_list a ! j) = Some (P j)"
    using j nl pj by (simp add: nth_attach_vars)
  have sub: "set (node_leaf_pair (llist a) (P j) j k (left, right, is_root))
              \<subseteq> set (m_constrs (m a))"
    using node_leaf_pair_subset [OF assms(2) assms(3), of "llist a" "plist a"] assms(4) pj mc
    by auto
  show ?thesis
    using sub var by (cases is_root) (simp_all add: node_leaf_pair_def Let_def)
qed

section \<open>Node-leaf coupling constraints\<close>

text \<open>
  Claim C9.  Take any split node of any tree of the ensemble the attacker was built from,
  as \<open>all_entries\<close> lists them from the trees themselves: the node's rounded
  (feature, threshold) pair, the leaves below its \<^verbatim>\<open>yes\<close> child, the leaves below its
  \<^verbatim>\<open>no\<close> child, and whether it is the root of its tree.  Then the unique split \<open>j\<close> with
  that pair has an occurrence \<open>k\<close> that records exactly these leaves and this flag, its
  variable is \<open>P j\<close>, and the model contains, for the root of a tree, the two equalities
  sum(left leaves) - p = 0 and sum(right leaves) + p = 1, and for every node below a
  root the two inequalities sum(left leaves) - p \<open>\<le>\<close> 0 and sum(right leaves) + p \<open>\<le>\<close> 1.
\<close>

theorem node_leaf_coupling:
  assumes "init jm eps ord gv rd pos neg pt vb nt = Inr a"
    and "(key, left, right, is_root) \<in> set (all_entries rd jm pos neg)"
  shows "\<exists>j k. j < length (node_list a) \<and> k < length (leaves_lists (node_list a ! j))
     \<and> (attribute (node_list a ! j), threshold (node_list a ! j)) = key
     \<and> leaves_lists (node_list a ! j) ! k = (left, right, is_root)
     \<and> p_grb_var (node_list a ! j) = Some (P j)
     \<and> (if is_root then
          \<lparr>c_name = RootLeft j k, c_lhs = (map (\<lambda>i. (1, L i)) left @ [(- 1, P j)], 0),
           c_sense = EQ, c_rhs = ([], 0)\<rparr> \<in> set (m_constrs (m a)) \<and>
          \<lparr>c_name = RootRight j k, c_lhs = (map (\<lambda>i. (1, L i)) right @ [(1, P j)], 0),
           c_sense = EQ, c_rhs = ([], 1)\<rparr> \<in> set (m_constrs (m a))
        else
          \<lparr>c_name = NodeLeft j k, c_lhs = (map (\<lambda>i. (1, L i)) left @ [(- 1, P j)], 0),
           c_sense = LE, c_rhs = ([], 0)\<rparr> \<in> set (m_constrs (m a)) \<and>
          \<lparr>c_name = NodeRight j k, c_lhs = (map (\<lambda>i. (1, L i)) right @ [(1, P j)], 0),
           c_sense = LE, c_rhs = ([], 1)\<rparr> \<in> set (m_constrs (m a)))"
proof -
  from init_coupling_rows [OF assms] obtain j k where
    jk: "j < length (node_list a)" "k < length (leaves_lists (node_list a ! j))"
      "(attribute (node_list a ! j), threshold (node_list a ! j)) = key"
      "leaves_lists (node_list a ! j) ! k = (left, right, is_root)"
      "p_grb_var (node_list a ! j) = Some (P j)"
    and sub: "set (node_leaf_pair (llist a) (P j) j k (left, right, is_root))
                \<subseteq> set (m_constrs (m a))"
    and l: "LinExpr (replicate (length (map (\<lambda>i. llist a ! i) left)) 1) (map (\<lambda>i. llist a ! i) left)
         = (map (\<lambda>i. (1, L i)) left, 0)"
    and r: "LinExpr (replicate (length (map (\<lambda>i. llist a ! i) right)) 1) (map (\<lambda>i. llist a ! i) right)
         = (map (\<lambda>i. (1, L i)) right, 0)"
    by blast
  have l': "LinExpr (replicate (length left) 1) (map ((!) (llist a)) left)
              = (map (\<lambda>i. (1, L i)) left, 0)"
    using l by simp
  have r': "LinExpr (replicate (length right) 1) (map ((!) (llist a)) right)
              = (map (\<lambda>i. (1, L i)) right, 0)"
    using r by simp
  have rows: "if is_root then
          \<lparr>c_name = RootLeft j k, c_lhs = (map (\<lambda>i. (1, L i)) left @ [(- 1, P j)], 0),
           c_sense = EQ, c_rhs = ([], 0)\<rparr> \<in> set (m_constrs (m a)) \<and>
          \<lparr>c_name = RootRight j k, c_lhs = (map (\<lambda>i. (1, L i)) right @ [(1, P j)], 0),
           c_sense = EQ, c_rhs = ([], 1)\<rparr> \<in> set (m_constrs (m a))
        else
          \<lparr>c_name = NodeLeft j k, c_lhs = (map (\<lambda>i. (1, L i)) left @ [(- 1, P j)], 0),
           c_sense = LE, c_rhs = ([], 0)\<rparr> \<in> set (m_constrs (m a)) \<and>
          \<lparr>c_name = NodeRight j k, c_lhs = (map (\<lambda>i. (1, L i)) right @ [(1, P j)], 0),
           c_sense = LE, c_rhs = ([], 1)\<rparr> \<in> set (m_constrs (m a))"
    using sub
    by (cases is_root)
       (simp_all add: node_leaf_pair_def Let_def l' r' le_minus_var_def le_plus_var_def le_const_def)
  show ?thesis using jk rows by blast
qed

theorem node_leaf_coupling_witness:
  "init (Some [close_tree]) None Linf (5 / 1000000) 6 None None 0 False 1 = Inr close_attacker
   \<and> all_entries 6 (Some [close_tree]) None None
       = [((0, 5000003 / 1000000), [1], [2], False), ((0, 5), [0], [1, 2], True)]
   \<and> (\<exists>j k. j < length (node_list close_attacker)
         \<and> k < length (leaves_lists (node_list close_attacker ! j))
         \<and> (attribute (node_list close_attacker ! j), threshold (node_list close_attacker ! j))
             = (0, 5000003 / 1000000)
         \<and> leaves_lists (node_list close_attacker ! j) ! k = ([1], [2], False)
         \<and> p_grb_var (node_list close_attacker ! j) = Some (P j)
         \<and> \<lparr>c_name = NodeLeft j k, c_lhs = ([(1, L 1), (- 1, P j)], 0),
             c_sense = LE, c_rhs = ([], 0)\<rparr> \<in> set (m_constrs (m close_attacker))
         \<and> \<lparr>c_name = NodeRight j k, c_lhs = ([(1, L 2), (1, P j)], 0),
             c_sense = LE, c_rhs = ([], 1)\<rparr> \<in> set (m_constrs (m close_attacker)))
   \<and> (\<exists>j k. j < length (node_list close_attacker)
         \<and> k < length (leaves_lists (node_list close_attacker ! j))
         \<and> (attribute (node_list close_attacker ! j), threshold (node_list close_attacker ! j))
             = (0, 5)
         \<and> leaves_lists (node_list close_attacker ! j) ! k = ([0], [1, 2], True)
         \<and> p_grb_var (node_list close_attacker ! j) = Some (P j)
         \<and> \<lparr>c_name = RootLeft j k, c_lhs = ([(1, L 0), (- 1, P j)], 0),
             c_sense = EQ, c_rhs = ([], 0)\<rparr> \<in> set (m_constrs (m close_attacker))
         \<and> \<lparr>c_name = RootRight j k, c_lhs = ([(1, L 1), (1, L 2), (1, P j)], 0),
             c_sense = EQ, c_rhs = ([], 1)\<rparr> \<in> set (m_constrs (m close_attacker)))
   \<and> map c_name (m_constrs (m close_attacker))
       = [PConsis 0 0, LeafSumOne 0, NodeLeft 0 0, NodeRight 0 0, RootLeft 1 0, RootRight 1 0]"
proof -
  have h: "init (Some [close_tree]) None Linf (5 / 1000000) 6 None None 0 False 1
             = Inr close_attacker"
    by code_simp
  have e: "all_entries 6 (Some [close_tree]) None None
       = [((0, 5000003 / 1000000), [1], [2], False), ((0, 5), [0], [1, 2], True)]"
    by code_simp
  have n: "map c_name (m_constrs (m close_attacker))
       = [PConsis 0 0, LeafSumOne 0, NodeLeft 0 0, NodeRight 0 0, RootLeft 1 0, RootRight 1 0]"
    by code_simp
  have e1: "((0, 5000003 / 1000000), [1], [2], False) \<in> set (all_entries 6 (Some [close_tree]) None None)"
    unfolding e by simp
  have e2: "((0, 5), [0], [1, 2], True) \<in> set (all_entries 6 (Some [close_tree]) None None)"
    unfolding e by simp
  show ?thesis
    using node_leaf_coupling [OF h e1] node_leaf_coupling [OF h e2] h e n by simp
qed

section \<open>The feasibility query returns the solver's verdict\<close>



section \<open>No attack on a sample that is already mispredicted\<close>

text \<open>
  Claim C6.  When the manual prediction on the unperturbed sample (\<^verbatim>\<open>check\<close> compared to
  \<^verbatim>\<open>pred_threshold\<close>) differs from the asserted label, the minimal-distance query returns
  the sample unchanged; the attacker, and so its model, is unchanged, and the result is
  the same for every solver.
\<close>

theorem no_attack_when_already_mispredicted:
  assumes "binary st"
    and "check sample (json_model st) = Inr v"
    and "(if pred_threshold st \<le> v then 1 else 0) \<noteq> label"
  shows "optimal_adversarial_example slv st sample label = Inr (Some sample, st)"
  using assms by (simp add: optimal_adversarial_example_def predict_def)

theorem no_attack_when_already_mispredicted_witness:
  "binary (stump_attacker None)
   \<and> check [3] (json_model (stump_attacker None)) = Inr (- 1)
   \<and> (if pred_threshold (stump_attacker None) \<le> - 1 then 1 else 0) \<noteq> (1 :: int)
   \<and> optimal_adversarial_example no_solver (stump_attacker None) [3] 1
       = Inr (Some [3], stump_attacker None)"
proof -
  have h1: "binary (stump_attacker None)" by code_simp
  have h2: "check [3] (json_model (stump_attacker None)) = Inr (- 1)" by code_simp
  have h3: "(if pred_threshold (stump_attacker None) \<le> - 1 then 1 else 0) \<noteq> (1 :: int)"
    by code_simp
  show ?thesis
    using no_attack_when_already_mispredicted [OF h1 h2 h3, of no_solver] h1 h2 h3 by blast
qed

section \<open>Epsilon zero\<close>

lemma attack_loop_epsilon [simp]:
  "attack_loop (st\<lparr>epsilon := e\<rparr>) x pd gm = attack_loop st x pd gm"
  by (induction pd arbitrary: gm) (auto split: sum.splits option.splits)

lemma replace_mislabel_epsilon [simp]:
  "replace_mislabel (st\<lparr>epsilon := e\<rparr>) label gm = replace_mislabel st label gm"
  by (simp add: replace_mislabel_def mislabel_constr_def)

text \<open>
  Claim C10.  With \<^verbatim>\<open>epsilon = 0\<close> and order infinity the constructor builds what it builds
  for \<^verbatim>\<open>epsilon = None\<close> (only the stored \<^verbatim>\<open>epsilon\<close> field differs): the distance
  variable has no upper bound, the feasibility query gives the same answers, and on the
  example stump a perturbation of magnitude 2 is feasible for the query at radius 0.
\<close>

theorem epsilon_zero_as_none:
  "init jm (Some 0) Linf gv rd pos neg pt vb nt
     = map_sum id (\<lambda>a. a\<lparr>epsilon := Some 0\<rparr>) (init jm None Linf gv rd pos neg pt vb nt)
   \<and> B_decl (Some 0) Linf = B_decl None Linf
   \<and> B_decl (Some 0) Linf = [\<lparr>vd_var = B, vd_type = Continuous, vd_lb = 0, vd_ub = None\<rparr>]
   \<and> attack slv (a\<lparr>epsilon := Some 0\<rparr>) X label
       = map_sum id (\<lambda>(r, a'). (r, a'\<lparr>epsilon := Some 0\<rparr>)) (attack slv a X label)
   \<and> feasible (m (snd (projr (attack no_solver (stump_attacker (Some 0)) [3] 0))))
       (\<lambda>v. case v of P i \<Rightarrow> 0 | L i \<Rightarrow> (if i = 1 then 1 else 0) | B \<Rightarrow> 2)"
proof -
  have bd: "B_decl (Some 0) Linf = B_decl None Linf"
    by (simp add: B_decl_def truthy_def)
  have c1: "init jm (Some 0) Linf gv rd pos neg pt vb nt
     = map_sum id (\<lambda>a. a\<lparr>epsilon := Some 0\<rparr>) (init jm None Linf gv rd pos neg pt vb nt)"
    unfolding init_def bd by (simp add: Let_def split: sum.splits prod.splits)
  have c3: "B_decl (Some 0) Linf
              = [\<lparr>vd_var = B, vd_type = Continuous, vd_lb = 0, vd_ub = None\<rparr>]"
    by (simp add: B_decl_def truthy_def)
  have c4: "attack slv (a\<lparr>epsilon := Some 0\<rparr>) X label
       = map_sum id (\<lambda>(r, a'). (r, a'\<lparr>epsilon := Some 0\<rparr>)) (attack slv a X label)"
    by (simp add: attack_def Let_def split: sum.splits)
  have c5: "feasible (m (snd (projr (attack no_solver (stump_attacker (Some 0)) [3] 0))))
       (\<lambda>v. case v of P i \<Rightarrow> 0 | L i \<Rightarrow> (if i = 1 then 1 else 0) | B \<Rightarrow> 2)"
    by code_simp
  show ?thesis using bd c1 c3 c4 c5 by blast
qed


section \<open>The pairwise attackers of the multiclass decomposer\<close>

text \<open>
  Claim C1.  The claim asks that attacking class \<open>label\<close> uses the attacker built from the
  pair (label, other) for every other class.  The constructor appends \<^verbatim>\<open>None\<close> for the
  diagonal and then still appends the attacker of the pair (label, label), so every row
  has one entry more than there are classes and the entries behind the diagonal are
  shifted by one.  With three classes and six trees, row 0 holds at index 1 the attacker
  of the pair (0, 0) and at index 2 the attacker of the pair (0, 1): the query for class
  0 reads indices 1 and 2 and never reaches the sub-model of class 2.
\<close>

theorem multiclass_attackers_shifted:
  "map_sum id (\<lambda>mc. map sub_models (binary_attackers mc ! 0))
     (mc_init six_stumps 3 Linf (5 / 1000000) 6 0 False 1)
   = Inr [None,
          Some (Some [class_stump 1 1 0, class_stump 1 2 0],
                Some [class_stump 1 1 0, class_stump 1 2 0]),
          Some (Some [class_stump 1 1 0, class_stump 1 2 0],
                Some [class_stump 2 0 1, class_stump 2 0 3]),
          Some (Some [class_stump 1 1 0, class_stump 1 2 0],
                Some [class_stump 3 0 2, class_stump 3 0 4])]"
  by code_simp


section \<open>Epsilon monotonicity of the feasibility query\<close>

lemma attack_loop_rel:
  assumes "guard_val s1 = guard_val s2" "B_var s1 = B_var s2" "m_constrs g1 = m_constrs g2"
  shows "(\<exists>e. attack_loop s1 x pd g1 = Inl e \<and> attack_loop s2 x pd g2 = Inl e)
       \<or> (\<exists>r1 r2. attack_loop s1 x pd g1 = Inr r1 \<and> attack_loop s2 x pd g2 = Inr r2
             \<and> m_constrs r1 = m_constrs r2 \<and> m_vars r1 = m_vars g1 \<and> m_vars r2 = m_vars g2)"
  using assms(3)
proof (induction pd arbitrary: g1 g2)
  case Nil
  then show ?case by simp
next
  case (Cons e pd)
  obtain key ps where e: "e = (key, ps)" by (cases e)
  show ?case
  proof (cases "weights (guard_val s2) 1 x key ps")
    case (Inl err)
    then show ?thesis using e assms(1) by simp
  next
    case (Inr w)
    show ?thesis
    proof (cases "B_var s2")
      case None
      then show ?thesis using e Inr assms(1,2) by simp
    next
      case (Some b)
      have c: "m_constrs (linf_constr key w ps b g1) = m_constrs (linf_constr key w ps b g2)"
        using Cons.prems by (simp add: linf_constr_def addConstr_def remove_by_name_def)
      have v: "m_vars (linf_constr key w ps b g1) = m_vars g1"
        "m_vars (linf_constr key w ps b g2) = m_vars g2"
        by (simp_all add: linf_constr_def addConstr_def remove_by_name_def)
      show ?thesis
        using Cons.IH [OF c] v e Inr Some assms(1,2) by simp
    qed
  qed
qed


lemma replace_mislabel_fields:
  "m_vars (replace_mislabel st label gm) = m_vars gm"
  "m_constrs (replace_mislabel st label gm)
     = remove_first Mislabel (m_constrs gm) @ [mislabel_constr st label]"
  by (simp_all add: replace_mislabel_def Let_def addConstr_def remove_by_name_def)

lemma mislabel_constr_cong:
  assumes "binary s1 = binary s2" "leaf_v_list s1 = leaf_v_list s2" "llist s1 = llist s2"
    "pred_threshold s1 = pred_threshold s2" "guard_val s1 = guard_val s2"
  shows "mislabel_constr s1 label = mislabel_constr s2 label"
  using assms by (simp add: mislabel_constr_def)

lemma B_decl_feasible_mono:
  assumes "e1 \<noteq> 0" "e2 \<noteq> 0" "e1 \<le> e2"
    and "list_all (sat_var asg) (vs @ B_decl (Some e1) Linf)"
  shows "list_all (sat_var asg) (vs @ B_decl (Some e2) Linf)"
  using assms by (auto simp: B_decl_def truthy_def sat_var_def)

text \<open>
  Claim C5.  For a fixed ensemble, sample and label and \<open>0 < e1 \<le> e2\<close>, the models the
  feasibility query solves at the two radii have the same constraints and differ only in
  the upper bound \<^verbatim>\<open>epsilon - 0.0001\<close> of the distance variable, so every assignment
  feasible at \<open>e1\<close> is feasible at \<open>e2\<close>; with a solver whose status 3 means infeasible on
  these two models, a sample reported robust at \<open>e2\<close> is reported robust at \<open>e1\<close>.
\<close>

theorem attack_epsilon_monotone:
  assumes "0 < e1" and "e1 \<le> e2"
    and i1: "init jm (Some e1) Linf gv rd pos neg pt vb nt = Inr a1"
    and i2: "init jm (Some e2) Linf gv rd pos neg pt vb nt = Inr a2"
    and t1: "attack slv a1 X label = Inr (r1, a1')"
    and t2: "attack slv a2 X label = Inr (r2, a2')"
    and x1: "(status (slv (m a1')) = 3) = infeasible (m a1')"
    and x2: "(status (slv (m a2')) = 3) = infeasible (m a2')"
    and r2: "r2"
  shows "r1 \<and> (\<forall>asg. feasible (m a1') asg \<longrightarrow> feasible (m a2') asg)"
proof (rule init_InrD [OF i1], rule init_InrD [OF i2])
  fix st lc pd cs g st' lc' pd' cs' g'
  assume ce: "compile_ensemble rd jm pos neg = Inr (st, lc)"
    and ce': "compile_ensemble rd jm pos neg = Inr (st', lc')"
    and f: "features_loop (build_pdict 0 (node_list a1) []) [] gv = (pd, cs, g)"
    and f': "features_loop (build_pdict 0 (node_list a2) []) [] gv = (pd', cs', g')"
    and nl: "node_list a1 = attach_vars (c_node_list st) (plist a1) (llist a1)"
    and nl': "node_list a2 = attach_vars (c_node_list st') (plist a2) (llist a2)"
    and pl: "plist a1 = map P [0 ..< length (c_node_list st)]"
    and pl': "plist a2 = map P [0 ..< length (c_node_list st')]"
    and ll: "llist a1 = map L [0 ..< length (c_leaf_v_list st)]"
    and ll': "llist a2 = map L [0 ..< length (c_leaf_v_list st')]"
    and lv: "leaf_v_list a1 = c_leaf_v_list st"
    and lv': "leaf_v_list a2 = c_leaf_v_list st'"
    and pdi: "pdict a1 = pd" and pdi': "pdict a2 = pd'"
    and gu: "guard_val a1 = g" and gu': "guard_val a2 = g'"
    and mc: "m_constrs (m a1) = cs @ leaf_sum_constrs lc (llist a1)
                        @ node_leaf_constrs (node_list a1) (plist a1) (llist a1)"
    and mc': "m_constrs (m a2) = cs' @ leaf_sum_constrs lc' (llist a2)
                        @ node_leaf_constrs (node_list a2) (plist a2) (llist a2)"
    and mv: "m_vars (m a1) =
       map (\<lambda>i. \<lparr>vd_var = P i, vd_type = Binary, vd_lb = 0, vd_ub = None\<rparr>)
         [0 ..< length (c_node_list st)]
       @ map (\<lambda>i. \<lparr>vd_var = L i, vd_type = Continuous, vd_lb = 0, vd_ub = Some 1\<rparr>)
           [0 ..< length (c_leaf_v_list st)]
       @ B_decl (Some e1) Linf"
    and mv': "m_vars (m a2) =
       map (\<lambda>i. \<lparr>vd_var = P i, vd_type = Binary, vd_lb = 0, vd_ub = None\<rparr>)
         [0 ..< length (c_node_list st')]
       @ map (\<lambda>i. \<lparr>vd_var = L i, vd_type = Continuous, vd_lb = 0, vd_ub = Some 1\<rparr>)
           [0 ..< length (c_leaf_v_list st')]
       @ B_decl (Some e2) Linf"
    and bv: "B_var a1 = (if B_decl (Some e1) Linf = [] then None else Some B)"
    and bv': "B_var a2 = (if B_decl (Some e2) Linf = [] then None else Some B)"
    and bi: "binary a1 = (pos = None \<or> neg = None)"
    and bi': "binary a2 = (pos = None \<or> neg = None)"
    and pt: "pred_threshold a1 = pt" and pt': "pred_threshold a2 = pt"
  have same: "st' = st" "lc' = lc" using ce ce' by simp_all
  have lists: "llist a2 = llist a1" "plist a2 = plist a1" "node_list a2 = node_list a1"
    "leaf_v_list a2 = leaf_v_list a1"
    using same nl nl' pl pl' ll ll' lv lv' by simp_all
  have loop: "pd' = pd" "cs' = cs" "g' = g" using f f' lists by simp_all
  have guards: "guard_val a1 = guard_val a2" using gu gu' loop by simp
  have bvars: "B_var a1 = B_var a2" using bv bv' by (simp add: B_decl_def)
  have cons: "m_constrs (m a1) = m_constrs (m a2)" using mc mc' lists loop same by simp
  have mis: "mislabel_constr a1 label = mislabel_constr a2 label"
    by (rule mislabel_constr_cong) (use bi bi' lists pt pt' guards in simp_all)
  have start: "m_constrs (replace_mislabel a1 label (m a1))
                 = m_constrs (replace_mislabel a2 label (m a2))"
    using cons mis by (simp add: replace_mislabel_fields)
  from t1 obtain gm1 where l1:
    "attack_loop a1 X (pdict a1) (replace_mislabel a1 label (m a1)) = Inr gm1"
    and m1: "m a1' = gm1\<lparr>m_objective := le_const 0\<rparr>"
    and r1: "r1 = (status (slv (gm1\<lparr>m_objective := le_const 0\<rparr>)) = 3)"
    by (auto simp: attack_def Let_def split: sum.splits)
  from t2 obtain gm2 where l2:
    "attack_loop a2 X (pdict a2) (replace_mislabel a2 label (m a2)) = Inr gm2"
    and m2: "m a2' = gm2\<lparr>m_objective := le_const 0\<rparr>"
    and r2': "r2 = (status (slv (gm2\<lparr>m_objective := le_const 0\<rparr>)) = 3)"
    by (auto simp: attack_def Let_def split: sum.splits)
  have pds: "pdict a2 = pdict a1" using pdi pdi' loop by simp
  from attack_loop_rel [OF guards bvars start, of X "pdict a1"] l1 l2 pds
  have rel: "m_constrs gm1 = m_constrs gm2"
    "m_vars gm1 = m_vars (m a1)" "m_vars gm2 = m_vars (m a2)"
    by (simp_all add: replace_mislabel_fields)
  have sub: "feasible (m a1') asg \<Longrightarrow> feasible (m a2') asg" for asg
  proof -
    assume fe: "feasible (m a1') asg"
    have e: "e1 \<noteq> 0" "e2 \<noteq> 0" using assms(1,2) by simp_all
    have v1: "list_all (sat_var asg) (m_vars (m a1))"
      and c1: "list_all (sat_constr asg) (m_constrs gm2)"
      using fe m1 rel by (simp_all add: feasible_def)
    have "list_all (sat_var asg) (m_vars (m a2))"
      using v1 unfolding mv mv' same append_assoc [symmetric]
      by (rule B_decl_feasible_mono [OF e assms(2)])
    then show "feasible (m a2') asg"
      using c1 m2 rel by (simp add: feasible_def)
  qed
  have "infeasible (m a2')" using r2 r2' x2 m2 by simp
  then have "infeasible (m a1')" using sub by (auto simp: infeasible_def)
  then have "r1" using r1 x1 m1 by simp
  then show ?thesis using sub by blast
qed


lemma stump_query_model_infeasible:
  assumes "u < 2"
  shows "infeasible (stump_query_model u)"
  unfolding infeasible_def
proof (intro allI notI)
  fix asg :: "var \<Rightarrow> real"
  assume "feasible (stump_query_model u) asg"
  then show False using assms
    by (auto simp: feasible_def stump_query_model_def sat_var_def sat_constr_def
        eval_linexpr_def)
qed

theorem attack_epsilon_monotone_witness:
  "(0 :: real) < 1 / 2 \<and> (1 / 2 :: real) \<le> 1
   \<and> init (Some [stump]) (Some (1 / 2)) Linf (5 / 1000000) 6 None None 0 False 1
       = Inr (stump_attacker (Some (1 / 2)))
   \<and> init (Some [stump]) (Some 1) Linf (5 / 1000000) 6 None None 0 False 1
       = Inr (stump_attacker (Some 1))
   \<and> m (snd (projr (attack no_solver (stump_attacker (Some 1)) [3] 0)))
       = stump_query_model (9999 / 10000)
   \<and> infeasible (stump_query_model (9999 / 10000))
   \<and> fst (projr (attack no_solver (stump_attacker (Some 1)) [3] 0))
   \<and> fst (projr (attack no_solver (stump_attacker (Some (1 / 2))) [3] 0))"
proof -
  let ?a1 = "stump_attacker (Some (1 / 2))" and ?a2 = "stump_attacker (Some 1)"
  let ?q1 = "projr (attack no_solver ?a1 [3] 0)" and ?q2 = "projr (attack no_solver ?a2 [3] 0)"
  have e: "(0 :: real) < 1 / 2" "(1 / 2 :: real) \<le> 1" by simp_all
  have i1: "init (Some [stump]) (Some (1 / 2)) Linf (5 / 1000000) 6 None None 0 False 1 = Inr ?a1"
    by code_simp
  have i2: "init (Some [stump]) (Some 1) Linf (5 / 1000000) 6 None None 0 False 1 = Inr ?a2"
    by code_simp
  have t1: "attack no_solver ?a1 [3] 0 = Inr (fst ?q1, snd ?q1)"
    by code_simp
  have t2: "attack no_solver ?a2 [3] 0 = Inr (fst ?q2, snd ?q2)"
    by code_simp
  have m1: "m (snd ?q1) = stump_query_model (4999 / 10000)" by code_simp
  have m2: "m (snd ?q2) = stump_query_model (9999 / 10000)" by code_simp
  have n1: "infeasible (stump_query_model (4999 / 10000))"
    by (rule stump_query_model_infeasible) simp
  have n2: "infeasible (stump_query_model (9999 / 10000))"
    by (rule stump_query_model_infeasible) simp
  have x1: "(status (no_solver (m (snd ?q1))) = 3) = infeasible (m (snd ?q1))"
    using n1 m1 by (simp add: no_solver_def)
  have x2: "(status (no_solver (m (snd ?q2))) = 3) = infeasible (m (snd ?q2))"
    using n2 m2 by (simp add: no_solver_def)
  have r2: "fst ?q2" by code_simp
  from attack_epsilon_monotone [OF e i1 i2 t1 t2 x1 x2 r2]
  have "fst ?q1" by blast
  then show ?thesis using e i1 i2 m2 n2 r2 by blast
qed


section \<open>Split deduplication\<close>

text \<open>
  Claim C8.  After construction the number of entries of \<^verbatim>\<open>node_list\<close>, and so of binary
  split variables, is the number of distinct rounded (feature, threshold) pairs among the
  internal nodes of all trees, and two internal nodes with equal rounded pairs are
  occurrences of the same entry \<open>j\<close>, whose variable is \<open>P j\<close>.
\<close>

theorem split_deduplication:
  assumes "init jm eps ord gv rd pos neg pt vb nt = Inr a"
  shows "length (node_list a) = card (snd ` set (all_occurrences rd jm pos neg))
    \<and> plist a = map P [0 ..< card (snd ` set (all_occurrences rd jm pos neg))]
    \<and> (\<forall>o1 \<in> set (all_occurrences rd jm pos neg).
        \<forall>o2 \<in> set (all_occurrences rd jm pos neg).
          snd o1 = snd o2 \<longrightarrow>
          (\<exists>j < length (node_list a).
             (attribute (node_list a ! j), threshold (node_list a ! j)) = snd o1
             \<and> fst o1 \<in> set (node_pos (node_list a ! j))
             \<and> fst o2 \<in> set (node_pos (node_list a ! j))
             \<and> p_grb_var (node_list a ! j) = Some (P j)))"
proof (rule init_InrD [OF assms])
  fix st lc
  assume ce: "compile_ensemble rd jm pos neg = Inr (st, lc)"
    and nl: "node_list a = attach_vars (c_node_list st) (plist a) (llist a)"
    and pl: "plist a = map P [0 ..< length (c_node_list st)]"
  let ?occs = "all_occurrences rd jm pos neg"
  from compile_ensemble_occs [OF ce] have
    inv: "check_inv st"
    and keys: "set (map key_of (c_node_list st)) = snd ` set ?occs"
    and rec: "\<forall>oc \<in> set ?occs. recorded st oc"
    by simp_all
  have dist: "distinct (map key_of (c_node_list st))" by (rule check_inv_distinct [OF inv])
  have len: "length (c_node_list st) = card (snd ` set ?occs)"
    using distinct_card [OF dist] keys by simp
  have len': "length (node_list a) = length (c_node_list st)" unfolding nl by simp
  have share: "\<exists>j < length (node_list a).
             (attribute (node_list a ! j), threshold (node_list a ! j)) = snd o1
             \<and> fst o1 \<in> set (node_pos (node_list a ! j))
             \<and> fst o2 \<in> set (node_pos (node_list a ! j))
             \<and> p_grb_var (node_list a ! j) = Some (P j)"
    if o1: "o1 \<in> set ?occs" and o2: "o2 \<in> set ?occs" and eq: "snd o1 = snd o2" for o1 o2
  proof -
    from rec o1 obtain j1 where j1: "j1 < length (c_node_list st)"
      "key_of (c_node_list st ! j1) = snd o1" "fst o1 \<in> set (node_pos (c_node_list st ! j1))"
      unfolding recorded_def by blast
    from rec o2 obtain j2 where j2: "j2 < length (c_node_list st)"
      "key_of (c_node_list st ! j2) = snd o2" "fst o2 \<in> set (node_pos (c_node_list st ! j2))"
      unfolding recorded_def by blast
    have "map key_of (c_node_list st) ! j1 = map key_of (c_node_list st) ! j2"
      using j1 j2 eq by simp
    moreover have "j1 < length (map key_of (c_node_list st))"
      "j2 < length (map key_of (c_node_list st))"
      using j1(1) j2(1) by simp_all
    ultimately have same: "j1 = j2"
      using dist nth_eq_iff_index_eq by blast
    have nth: "node_list a ! j1 = add_grb_var (plist a ! j1) (llist a) (c_node_list st ! j1)"
      unfolding nl using j1(1) by (rule nth_attach_vars)
    have pj: "plist a ! j1 = P j1" using j1(1) pl by simp
    show ?thesis
      using j1 j2 same nth pj len'
      by (intro exI [of _ j1]) (simp add: key_of_def)
  qed
  show ?thesis using len len' pl share by simp
qed

theorem split_deduplication_witness:
  "init (Some two_stumps) None Linf (5 / 1000000) 6 None None 0 False 1
     = Inr (projr (init (Some two_stumps) None Linf (5 / 1000000) 6 None None 0 False 1))
   \<and> all_occurrences 6 (Some two_stumps) None None = [((0, 0), (0, 5)), ((1, 7), (0, 5))]
   \<and> length (node_list (projr (init (Some two_stumps) None Linf (5 / 1000000) 6 None None 0
        False 1))) = 1"
proof -
  let ?a = "projr (init (Some two_stumps) None Linf (5 / 1000000) 6 None None 0 False 1)"
  have h: "init (Some two_stumps) None Linf (5 / 1000000) 6 None None 0 False 1 = Inr ?a"
    by code_simp
  have o: "all_occurrences 6 (Some two_stumps) None None = [((0, 0), (0, 5)), ((1, 7), (0, 5))]"
    by code_simp
  have "length (node_list ?a) = card (snd ` set (all_occurrences 6 (Some two_stumps) None None))"
    using split_deduplication [OF h] by blast
  then have "length (node_list ?a) = 1" unfolding o by simp
  then show ?thesis using h o by blast
qed


section \<open>Adaptive guard shrink\<close>

text \<open>
  Claim C7.  With an initial guard value below 500 (half the sentinel 1000 the minimum
  gap starts from), the constructor's guard value is obtained by going through the
  features with more than one split in dictionary order and replacing the guard value
  by one third of the feature's minimum consecutive threshold gap whenever that gap is
  below twice the current guard value; every step leaves the guard value the same or
  smaller, so the final one is at most the initial one; for every feature with at least
  two unique splits the minimum gap is positive and at least twice the final guard
  value, so the guard value is strictly inside every gap; and neither query changes the
  guard value afterwards.
\<close>

theorem guard_shrink_invariant:
  assumes "init jm eps ord gv rd pos neg pt vb nt = Inr a" and "gv < 500"
  shows "(let mgs = map (\<lambda>(k, ps). min_gap ps) (filter (\<lambda>(k, ps). 1 < length ps) (pdict a))
          in guard_val a = fold guard_shrink mgs gv
             \<and> (\<forall>n < length mgs.
                   fold guard_shrink (take (Suc n) mgs) gv \<le> fold guard_shrink (take n mgs) gv))
    \<and> guard_val a \<le> gv
    \<and> (\<forall>(k, ps) \<in> set (pdict a). 1 < length ps \<longrightarrow>
          0 < min_gap ps \<and> 2 * guard_val a \<le> min_gap ps \<and> guard_val a < min_gap ps
          \<and> (\<forall>i. Suc i < length ps \<longrightarrow> 2 * guard_val a \<le> fst (ps ! Suc i) - fst (ps ! i)))
    \<and> (\<forall>slv X label r a'. attack slv a X label = Inr (r, a') \<longrightarrow> guard_val a' = guard_val a)
    \<and> (\<forall>slv X label r a'. optimal_adversarial_example slv a X label = Inr (r, a')
          \<longrightarrow> guard_val a' = guard_val a)"
proof -
  let ?mgs = "map (\<lambda>(k, ps). min_gap ps) (filter (\<lambda>(k, ps). 1 < length ps) (pdict a))"
  have fl: "\<exists>cs. features_loop (build_pdict 0 (node_list a) []) [] gv = (pdict a, cs, guard_val a)"
  proof (rule init_InrD [OF assms(1)])
    fix pd cs g
    assume "features_loop (build_pdict 0 (node_list a) []) [] gv = (pd, cs, g)"
      "pdict a = pd" "guard_val a = g"
    then show ?thesis by blast
  qed
  then obtain cs where
    fl: "features_loop (build_pdict 0 (node_list a) []) [] gv = (pdict a, cs, guard_val a)" ..
  note loop = features_loop_guard [OF fl]
  have le: "guard_val a \<le> gv" using loop by (rule conjunct1)
  have gap: "\<forall>(k, ps) \<in> set (pdict a). 1 < length ps \<longrightarrow> 2 * guard_val a \<le> min_gap ps"
    using loop by blast
  have fld: "guard_val a = fold guard_shrink ?mgs gv"
    using loop assms(2) by blast
  have lists: "sorted (map fst ps) \<and> distinct (map fst ps)" if "(k, ps) \<in> set (pdict a)" for k ps
    using init_pdict_lists(2) [OF assms(1) that] by simp
  have nonneg: "\<forall>mg \<in> set ?mgs. 0 \<le> mg"
    using lists by (auto intro: min_gap_nonneg)
  have traj: "\<forall>n < length ?mgs.
      fold guard_shrink (take (Suc n) ?mgs) gv \<le> fold guard_shrink (take n ?mgs) gv"
    using fold_guard_shrink_step [OF nonneg] by blast
  have feat: "0 < min_gap ps \<and> 2 * guard_val a \<le> min_gap ps \<and> guard_val a < min_gap ps
          \<and> (\<forall>i. Suc i < length ps \<longrightarrow> 2 * guard_val a \<le> fst (ps ! Suc i) - fst (ps ! i))"
    if mem: "(k, ps) \<in> set (pdict a)" and len: "1 < length ps" for k ps
  proof -
    have p: "0 < min_gap ps" using lists [OF mem] len by (intro min_gap_pos) simp_all
    have g: "2 * guard_val a \<le> min_gap ps" using gap mem len by blast
    have "2 * guard_val a \<le> fst (ps ! Suc i) - fst (ps ! i)" if "Suc i < length ps" for i
      using g min_gap_le_nth [OF that] by simp
    then show ?thesis using p g by auto
  qed
  show ?thesis
    unfolding Let_def using fld traj le feat attack_guard_val optimal_guard_val by blast
qed


theorem guard_shrink_invariant_witness:
  "init (Some [close_tree]) None Linf (5 / 1000000) 6 None None 0 False 1
     = Inr (projr (init (Some [close_tree]) None Linf (5 / 1000000) 6 None None 0 False 1))
   \<and> (5 / 1000000 :: real) < 500
   \<and> pdict (projr (init (Some [close_tree]) None Linf (5 / 1000000) 6 None None 0 False 1))
       = [(0, [(5, P 1), (5000003 / 1000000, P 0)])]
   \<and> guard_val (projr (init (Some [close_tree]) None Linf (5 / 1000000) 6 None None 0 False 1))
       = 1 / 1000000"
proof -
  let ?a = "projr (init (Some [close_tree]) None Linf (5 / 1000000) 6 None None 0 False 1)"
  have h: "init (Some [close_tree]) None Linf (5 / 1000000) 6 None None 0 False 1 = Inr ?a"
    by code_simp
  have b: "(5 / 1000000 :: real) < 500" by simp
  have pd: "pdict ?a = [(0, [(5, P 1), (5000003 / 1000000, P 0)])]" by code_simp
  have "guard_val ?a
          = fold guard_shrink
              (map (\<lambda>(k, ps). min_gap ps) (filter (\<lambda>(k, ps). 1 < length ps) (pdict ?a)))
              (5 / 1000000)"
    using guard_shrink_invariant [OF h b] unfolding Let_def by blast
  then have "guard_val ?a = 1 / 1000000"
    unfolding pd by (simp add: min_gap_def guard_shrink_def)
  then show ?thesis using h b pd by blast
qed


end
